theory Spec2Isabelle
  imports Main "HOL-Library.Multiset"
begin

section \<open>Primitives of the scalar and group arithmetic\<close>

text \<open>
  The file \<^verbatim>\<open>ecmult_multi_impl.h\<close> calls scalar and group primitives whose code lives in
  other files of the library. They are modelled from the interface the specification
  gives for them. A scalar is its integer representation, a natural number; every
  operation the driver applies to a scalar makes it smaller or leaves it unchanged,
  so a scalar that starts below \<open>2 ^ 256\<close> stays there. A curve point is an element of an
  arbitrary commutative monoid written additively, whose \<open>0\<close> is the point at infinity.
\<close>

type_synonym secp256k1_scalar = nat

datatype error = Verify_Check_Failed | Numsub_Borrow

text \<open>Modelled from the spec: the constant \<^verbatim>\<open>SECP256K1_ECMULT_MULTI_MAX_N\<close> of
  \<^verbatim>\<open>ecmult_multi.h\<close>; "in the reference system this bound is 256, because indices are
  stored in a single byte".\<close>

definition SECP256K1_ECMULT_MULTI_MAX_N :: nat where
  "SECP256K1_ECMULT_MULTI_MAX_N = 256"

text \<open>Modelled from the spec: \<^verbatim>\<open>scalarCompare(a, b) -> {less, equal, greater}\<close>, the
  "ordering over the integer representation of scalar values"; the C function returns
  a negative, zero or positive \<^verbatim>\<open>int\<close>.\<close>

definition secp256k1_scalar_cmp_var :: "secp256k1_scalar \<Rightarrow> secp256k1_scalar \<Rightarrow> int" where
  "secp256k1_scalar_cmp_var a b = (if a < b then - 1 else if a = b then 0 else 1)"

text \<open>Modelled from the spec: \<^verbatim>\<open>scalarIsZero(a) -> bool\<close>.\<close>

definition secp256k1_scalar_is_zero :: "secp256k1_scalar \<Rightarrow> bool" where
  "secp256k1_scalar_is_zero a = (a = 0)"

text \<open>Modelled from the spec: \<^verbatim>\<open>scalarSubtractNonModular(a, b) -> a-b\<close>, "valid only when
  \<^verbatim>\<open>a >= b\<close>". A call outside that precondition is the error \<open>Numsub_Borrow\<close>.\<close>

definition secp256k1_scalar_numsub :: "secp256k1_scalar \<Rightarrow> secp256k1_scalar \<Rightarrow> error + secp256k1_scalar" where
  "secp256k1_scalar_numsub a b = (if a < b then Inl Numsub_Borrow else Inr (a - b))"

text \<open>Modelled from the spec: \<^verbatim>\<open>scalarShiftRightExtractBit(a) -> (a >> 1, bit)\<close>, "returns the
  shifted scalar and the bit removed"; the C function takes the number of bits to shift.\<close>

definition secp256k1_scalar_shr_int :: "secp256k1_scalar \<Rightarrow> nat \<Rightarrow> secp256k1_scalar \<times> nat" where
  "secp256k1_scalar_shr_int a n = (a div 2 ^ n, a mod 2 ^ n)"

text \<open>Modelled from the spec: \<^verbatim>\<open>pointAdd(a, b) -> a+b\<close>, \<^verbatim>\<open>pointDouble(a) -> 2a\<close>,
  \<^verbatim>\<open>pointIsInfinity(a) -> bool\<close> and \<^verbatim>\<open>pointSetInfinity() -> identity point\<close>.\<close>

definition secp256k1_gej_add_var :: "'p::comm_monoid_add \<Rightarrow> 'p \<Rightarrow> 'p" where
  "secp256k1_gej_add_var a b = a + b"

definition secp256k1_gej_double_var :: "'p::comm_monoid_add \<Rightarrow> 'p" where
  "secp256k1_gej_double_var a = a + a"

definition secp256k1_gej_is_infinity :: "'p::comm_monoid_add \<Rightarrow> bool" where
  "secp256k1_gej_is_infinity a = (a = 0)"

definition secp256k1_gej_set_infinity :: "'p::comm_monoid_add" where
  "secp256k1_gej_set_infinity = 0"

section \<open>The scalar heap\<close>

text \<open>
  The struct \<^verbatim>\<open>secp256k1_scalar_heap\<close>. The array \<open>tree\<close> holds indices of type
  \<^verbatim>\<open>unsigned char\<close>, modelled as natural numbers (the one conversion from \<^verbatim>\<open>size_t\<close>, in
  \<^verbatim>\<open>secp256k1_heap_initialize\<close>, is written out as \<open>mod 256\<close>). Positions and sizes are
  \<^verbatim>\<open>size_t\<close>; they never exceed twice the size of the heap plus two, so no arithmetic on them
  wraps. The field \<^verbatim>\<open>scalars\<close> is a pointer to the caller's array, which the driver keeps
  mutating while the heap exists; the model therefore passes the current contents \<open>sc\<close> of
  that array to every heap operation instead of storing a copy. The claims below are stated
  for heaps and arrays in which every position read lies inside its array, where C defines
  the read.
\<close>

record secp256k1_scalar_heap =
  tree :: "nat list"
  size_heap :: nat

function secp256k1_sift_down ::
  "secp256k1_scalar_heap \<Rightarrow> secp256k1_scalar list \<Rightarrow> nat \<Rightarrow> nat \<Rightarrow> secp256k1_scalar_heap" where
  "secp256k1_sift_down h sc node index =
     (if node < size_heap h div 2 then
        let child = 2 * node + 1;
            child_index = tree h ! child;
            other = child + 1;
            (child, child_index) =
              (if other < size_heap h \<and>
                  secp256k1_scalar_cmp_var (sc ! (tree h ! other)) (sc ! child_index) > 0
               then (other, tree h ! other) else (child, child_index))
        in if secp256k1_scalar_cmp_var (sc ! index) (sc ! child_index) > 0
           then h\<lparr>tree := (tree h)[node := index]\<rparr>
           else secp256k1_sift_down (h\<lparr>tree := (tree h)[node := child_index]\<rparr>) sc child index
      else h\<lparr>tree := (tree h)[node := index]\<rparr>)"
  by pat_completeness auto
termination
  by (relation "measure (\<lambda>(h, sc, node, index). size_heap h - node)")
     (auto split: if_splits)

function secp256k1_sift_up ::
  "secp256k1_scalar_heap \<Rightarrow> secp256k1_scalar list \<Rightarrow> nat \<Rightarrow> nat \<Rightarrow> secp256k1_scalar_heap" where
  "secp256k1_sift_up h sc node index =
     (if node > 0 then
        let parent = (node - 1) div 2;
            parent_index = tree h ! parent
        in if secp256k1_scalar_cmp_var (sc ! index) (sc ! parent_index) \<le> 0
           then h\<lparr>tree := (tree h)[node := index]\<rparr>
           else secp256k1_sift_up (h\<lparr>tree := (tree h)[node := parent_index]\<rparr>) sc parent index
      else h\<lparr>tree := (tree h)[node := index]\<rparr>)"
  by pat_completeness auto
termination
  by (relation "measure (\<lambda>(h, sc, node, index). node)") auto

text \<open>The loop of \<^verbatim>\<open>secp256k1_sift_floyd\<close>: it returns the heap and the position reached.\<close>

function secp256k1_sift_floyd_loop ::
  "secp256k1_scalar_heap \<Rightarrow> secp256k1_scalar list \<Rightarrow> nat \<Rightarrow> secp256k1_scalar_heap \<times> nat" where
  "secp256k1_sift_floyd_loop h sc node =
     (if node < size_heap h div 2 then
        let child = 2 * node + 1;
            child_index = tree h ! child;
            other = child + 1;
            (child, child_index) =
              (if other < size_heap h \<and>
                  secp256k1_scalar_cmp_var (sc ! (tree h ! other)) (sc ! child_index) > 0
               then (other, tree h ! other) else (child, child_index))
        in secp256k1_sift_floyd_loop (h\<lparr>tree := (tree h)[node := child_index]\<rparr>) sc child
      else (h, node))"
  by pat_completeness auto
termination
  by (relation "measure (\<lambda>(h, sc, node). size_heap h - node)")
     (auto split: if_splits)

definition secp256k1_sift_floyd ::
  "secp256k1_scalar_heap \<Rightarrow> secp256k1_scalar list \<Rightarrow> nat \<Rightarrow> nat \<Rightarrow> secp256k1_scalar_heap" where
  "secp256k1_sift_floyd h sc node index =
     (case secp256k1_sift_floyd_loop h sc node of (h', node') \<Rightarrow> secp256k1_sift_up h' sc node' index)"

text \<open>The loop \<^verbatim>\<open>while (root-- > 0)\<close> of \<^verbatim>\<open>secp256k1_heapify\<close>: the test reads \<open>root\<close>, the
  body sees it decremented.\<close>

function secp256k1_heapify_loop ::
  "secp256k1_scalar_heap \<Rightarrow> secp256k1_scalar list \<Rightarrow> nat \<Rightarrow> secp256k1_scalar_heap" where
  "secp256k1_heapify_loop h sc root =
     (if root > 0 then
        let root = root - 1
        in secp256k1_heapify_loop (secp256k1_sift_down h sc root (tree h ! root)) sc root
      else h)"
  by pat_completeness auto
termination
  by (relation "measure (\<lambda>(h, sc, root). root)") auto

definition secp256k1_heapify ::
  "secp256k1_scalar_heap \<Rightarrow> secp256k1_scalar list \<Rightarrow> secp256k1_scalar_heap" where
  "secp256k1_heapify h sc = secp256k1_heapify_loop h sc (size_heap h div 2)"

text \<open>The \<^verbatim>\<open>for\<close> loop of \<^verbatim>\<open>secp256k1_heap_initialize\<close>, on the array \<open>tree\<close> and the local
  \<open>size\<close>; the assignment \<^verbatim>\<open>heap->tree[size++] = i\<close> converts \<open>i\<close> to \<^verbatim>\<open>unsigned char\<close>.\<close>

function secp256k1_heap_initialize_loop ::
  "nat list \<Rightarrow> secp256k1_scalar list \<Rightarrow> 'p::comm_monoid_add list \<Rightarrow> nat \<Rightarrow> nat \<Rightarrow> nat
     \<Rightarrow> nat list \<times> nat" where
  "secp256k1_heap_initialize_loop t scalars pt n i sz =
     (if i < n then
        if \<not> secp256k1_scalar_is_zero (scalars ! i) \<and> \<not> secp256k1_gej_is_infinity (pt ! i)
        then secp256k1_heap_initialize_loop (t[sz := i mod 256]) scalars pt n (i + 1) (sz + 1)
        else secp256k1_heap_initialize_loop t scalars pt n (i + 1) sz
      else (t, sz))"
  by pat_completeness auto
termination
  by (relation "measure (\<lambda>(t, scalars, pt, n, i, sz). n - i)") auto

definition secp256k1_heap_initialize ::
  "secp256k1_scalar_heap \<Rightarrow> secp256k1_scalar list \<Rightarrow> 'p::comm_monoid_add list \<Rightarrow> nat
     \<Rightarrow> error + secp256k1_scalar_heap" where
  "secp256k1_heap_initialize h scalars pt n =
     (if \<not> n \<le> SECP256K1_ECMULT_MULTI_MAX_N then Inl Verify_Check_Failed
      else case secp256k1_heap_initialize_loop (tree h) scalars pt n 0 0 of
             (t, sz) \<Rightarrow> Inr (secp256k1_heapify \<lparr>tree = t, size_heap = sz\<rparr> scalars))"

definition secp256k1_replace ::
  "secp256k1_scalar_heap \<Rightarrow> secp256k1_scalar list \<Rightarrow> nat \<Rightarrow> error + nat \<times> secp256k1_scalar_heap" where
  "secp256k1_replace h sc index =
     (let result = tree h ! 0
      in if \<not> size_heap h > 0 then Inl Verify_Check_Failed
         else Inr (result, secp256k1_sift_floyd h sc 0 index))"

definition secp256k1_heap_remove ::
  "secp256k1_scalar_heap \<Rightarrow> secp256k1_scalar list \<Rightarrow> error + nat \<times> secp256k1_scalar_heap" where
  "secp256k1_heap_remove h sc =
     (let result = tree h ! 0
      in if \<not> size_heap h > 0 then Inl Verify_Check_Failed
         else let h = h\<lparr>size_heap := size_heap h - 1\<rparr>
              in if size_heap h > 0
                 then Inr (result, secp256k1_sift_down h sc 0 (tree h ! size_heap h))
                 else Inr (result, h))"

section \<open>The driver\<close>

text \<open>
  The locals of \<^verbatim>\<open>secp256k1_ecmult_multi\<close> that its loops change: the arrays \<open>sc\<close> and \<open>pt\<close>
  (the caller's, mutated in place), the heap and the index \<open>first\<close>. A loop that the code
  does not bound is a partial function: \<open>None\<close> is a run that never leaves the loop.
\<close>

record 'p ecmult_multi_state =
  sc_st :: "secp256k1_scalar list"
  pt_st :: "'p list"
  heap_st :: secp256k1_scalar_heap
  first_st :: nat

text \<open>The \<^verbatim>\<open>do ... while\<close> loop: the body runs before the guard is read.\<close>

partial_function (option) secp256k1_ecmult_multi_do ::
  "'p::comm_monoid_add ecmult_multi_state \<Rightarrow> nat \<Rightarrow> (error + 'p ecmult_multi_state) option" where
  "secp256k1_ecmult_multi_do st second =
     (let st = st\<lparr>pt_st := (pt_st st)[second :=
                   secp256k1_gej_add_var (pt_st st ! first_st st) (pt_st st ! second)]\<rparr>
      in case secp256k1_scalar_numsub (sc_st st ! first_st st) (sc_st st ! second) of
           Inl e \<Rightarrow> Some (Inl e)
         | Inr d \<Rightarrow>
             let st = st\<lparr>sc_st := (sc_st st)[first_st st := d]\<rparr>
             in if secp256k1_scalar_cmp_var (sc_st st ! first_st st) (sc_st st ! second) \<ge> 0
                then secp256k1_ecmult_multi_do st second
                else Some (Inr st))"

declare secp256k1_ecmult_multi_do.simps [code]

text \<open>One round of the \<^verbatim>\<open>while (heap.size > 0)\<close> loop: its body.\<close>

definition secp256k1_ecmult_multi_round ::
  "'p::comm_monoid_add ecmult_multi_state \<Rightarrow> (error + 'p ecmult_multi_state) option" where
  "secp256k1_ecmult_multi_round st =
     (let second = tree (heap_st st) ! 0
      in case secp256k1_ecmult_multi_do st second of
           None \<Rightarrow> None
         | Some (Inl e) \<Rightarrow> Some (Inl e)
         | Some (Inr st) \<Rightarrow>
             if secp256k1_scalar_is_zero (sc_st st ! first_st st)
             then (case secp256k1_heap_remove (heap_st st) (sc_st st) of
                     Inl e \<Rightarrow> Some (Inl e)
                   | Inr (result, h) \<Rightarrow> Some (Inr (st\<lparr>heap_st := h, first_st := result\<rparr>)))
             else (case secp256k1_replace (heap_st st) (sc_st st) (first_st st) of
                     Inl e \<Rightarrow> Some (Inl e)
                   | Inr (result, h) \<Rightarrow> Some (Inr (st\<lparr>heap_st := h, first_st := result\<rparr>))))"

partial_function (option) secp256k1_ecmult_multi_while ::
  "'p::comm_monoid_add ecmult_multi_state \<Rightarrow> (error + 'p ecmult_multi_state) option" where
  "secp256k1_ecmult_multi_while st =
     (if size_heap (heap_st st) > 0 then
        case secp256k1_ecmult_multi_round st of
          None \<Rightarrow> None
        | Some (Inl e) \<Rightarrow> Some (Inl e)
        | Some (Inr st) \<Rightarrow> secp256k1_ecmult_multi_while st
      else Some (Inr st))"

declare secp256k1_ecmult_multi_while.simps [code]

text \<open>The binary ladder \<^verbatim>\<open>for (;;)\<close> on the output \<open>r\<close> and the slot \<open>first\<close> of both arrays.\<close>

partial_function (option) secp256k1_ecmult_multi_ladder ::
  "'p::comm_monoid_add \<Rightarrow> 'p ecmult_multi_state \<Rightarrow> ('p \<times> 'p ecmult_multi_state) option" where
  "secp256k1_ecmult_multi_ladder r st =
     (case secp256k1_scalar_shr_int (sc_st st ! first_st st) 1 of
        (s, b) \<Rightarrow>
          let st = st\<lparr>sc_st := (sc_st st)[first_st st := s]\<rparr>
          in if b = 1 then
               let r = secp256k1_gej_add_var r (pt_st st ! first_st st)
               in if secp256k1_scalar_is_zero (sc_st st ! first_st st) then Some (r, st)
                  else secp256k1_ecmult_multi_ladder r
                         (st\<lparr>pt_st := (pt_st st)[first_st st :=
                               secp256k1_gej_double_var (pt_st st ! first_st st)]\<rparr>)
             else secp256k1_ecmult_multi_ladder r
                    (st\<lparr>pt_st := (pt_st st)[first_st st :=
                          secp256k1_gej_double_var (pt_st st ! first_st st)]\<rparr>))"

declare secp256k1_ecmult_multi_ladder.simps [code]

text \<open>
  \<^verbatim>\<open>secp256k1_ecmult_multi\<close>. The argument \<open>h0\<close> is the local \<^verbatim>\<open>heap\<close> as the stack holds it
  before it is initialised. The result is the output point \<open>r\<close> with the final contents of
  the two arrays.
\<close>

definition secp256k1_ecmult_multi ::
  "secp256k1_scalar_heap \<Rightarrow> secp256k1_scalar list \<Rightarrow> 'p::comm_monoid_add list \<Rightarrow> nat
     \<Rightarrow> (error + 'p \<times> secp256k1_scalar list \<times> 'p list) option" where
  "secp256k1_ecmult_multi h0 sc pt n =
     (let r = secp256k1_gej_set_infinity
      in case secp256k1_heap_initialize h0 sc pt n of
           Inl e \<Rightarrow> Some (Inl e)
         | Inr heap \<Rightarrow>
             if size_heap heap = 0 then Some (Inr (r, sc, pt))
             else (case secp256k1_heap_remove heap sc of
                     Inl e \<Rightarrow> Some (Inl e)
                   | Inr (first, heap) \<Rightarrow>
                       (case secp256k1_ecmult_multi_while
                               \<lparr>sc_st = sc, pt_st = pt, heap_st = heap, first_st = first\<rparr> of
                          None \<Rightarrow> None
                        | Some (Inl e) \<Rightarrow> Some (Inl e)
                        | Some (Inr st) \<Rightarrow>
                            if secp256k1_scalar_is_zero (sc_st st ! first_st st)
                            then Some (Inl Verify_Check_Failed)
                            else (case secp256k1_ecmult_multi_ladder r st of
                                    None \<Rightarrow> None
                                  | Some (r, st) \<Rightarrow> Some (Inr (r, sc_st st, pt_st st))))))"

section \<open>Notions used in the statements\<close>

text \<open>The heap invariant: every node other than the root has a scalar that its parent's
  scalar is not smaller than, compared as integers.\<close>

definition heap_invariant :: "secp256k1_scalar_heap \<Rightarrow> secp256k1_scalar list \<Rightarrow> bool" where
  "heap_invariant h sc =
     (\<forall>node\<in>{1..<size_heap h}. sc ! (tree h ! node) \<le> sc ! (tree h ! ((node - 1) div 2)))"

text \<open>The same order read from the parents: from position \<open>lo\<close> on, no child exceeds its
  parent. It describes a heap that is only partly built.\<close>

definition heap_below :: "nat \<Rightarrow> secp256k1_scalar_heap \<Rightarrow> secp256k1_scalar list \<Rightarrow> bool" where
  "heap_below lo h sc =
     (\<forall>j k. lo \<le> j \<and> k < size_heap h \<and> (k = 2 * j + 1 \<or> k = 2 * j + 2)
        \<longrightarrow> sc ! (tree h ! k) \<le> sc ! (tree h ! j))"

text \<open>The indices the heap holds: the first \<open>size\<close> entries of \<open>tree\<close>.\<close>

definition heap_indices :: "secp256k1_scalar_heap \<Rightarrow> nat list" where
  "heap_indices h = take (size_heap h) (tree h)"

text \<open>A heap whose entries can be read: the size fits the array \<open>tree\<close> and every index held
  addresses a scalar.\<close>

definition heap_wf :: "secp256k1_scalar_heap \<Rightarrow> secp256k1_scalar list \<Rightarrow> bool" where
  "heap_wf h sc =
     (size_heap h \<le> length (tree h) \<and> (\<forall>k\<in>{0..<size_heap h}. tree h ! k < length sc))"

text \<open>The active terms of the input, in increasing order: non-zero scalar and a point other
  than the point at infinity.\<close>

definition active_indices :: "secp256k1_scalar list \<Rightarrow> 'p::comm_monoid_add list \<Rightarrow> nat \<Rightarrow> nat list" where
  "active_indices scalars pt n =
     filter (\<lambda>i. \<not> secp256k1_scalar_is_zero (scalars ! i) \<and> \<not> secp256k1_gej_is_infinity (pt ! i)) [0..<n]"

text \<open>The position that the identical first halves of the loop bodies of
  \<^verbatim>\<open>secp256k1_sift_down\<close> and \<^verbatim>\<open>secp256k1_sift_floyd\<close> select below \<open>node\<close>: the left
  child, or the right child when there is one and its scalar is strictly larger.\<close>

definition larger_child :: "secp256k1_scalar_heap \<Rightarrow> secp256k1_scalar list \<Rightarrow> nat \<Rightarrow> nat" where
  "larger_child h sc node =
     (if 2 * node + 2 < size_heap h \<and> sc ! (tree h ! (2 * node + 1)) < sc ! (tree h ! (2 * node + 2))
      then 2 * node + 2 else 2 * node + 1)"

section \<open>The reference result and the driver's invariant\<close>

text \<open>The multiple \<open>k \<cdot> p\<close> of a point, by repeated addition.\<close>

primrec scalar_mult :: "nat \<Rightarrow> 'p::comm_monoid_add \<Rightarrow> 'p" where
  "scalar_mult 0 p = 0"
| "scalar_mult (Suc k) p = p + scalar_mult k p"

text \<open>The naive reference of the specification: each \<open>scalar\<^sub>i \<cdot> point\<^sub>i\<close> by its own
  double-and-add, right to left over the bits of the scalar, and the sum of the results.\<close>

fun double_and_add :: "nat \<Rightarrow> 'p::comm_monoid_add \<Rightarrow> 'p" where
  "double_and_add k p =
     (if k = 0 then 0
      else if odd k then p + double_and_add (k div 2) (p + p)
      else double_and_add (k div 2) (p + p))"

definition naive_reference :: "secp256k1_scalar list \<Rightarrow> 'p::comm_monoid_add list \<Rightarrow> nat \<Rightarrow> 'p" where
  "naive_reference scalars pt n = sum_list (map (\<lambda>i. double_and_add (scalars ! i) (pt ! i)) [0..<n])"

text \<open>The sum that the terms stored in the two arrays stand for.\<close>

definition terms_sum :: "nat \<Rightarrow> 'p::comm_monoid_add ecmult_multi_state \<Rightarrow> 'p" where
  "terms_sum n st = (\<Sum>i<n. scalar_mult (sc_st st ! i) (pt_st st ! i))"

text \<open>The indices the driver holds: \<open>first\<close>, in hand, and those in the heap.\<close>

definition held :: "'p ecmult_multi_state \<Rightarrow> nat list" where
  "held st = first_st st # heap_indices (heap_st st)"

text \<open>
  The invariant of the \<^verbatim>\<open>while\<close> loop, at its head: the arrays have \<open>n\<close> slots; the indices
  held are pairwise distinct, below \<open>n\<close> and have non-zero scalars; the heap is ordered
  and no scalar in it exceeds the scalar of \<open>first\<close>; every index that is not held belongs to
  a term that contributes nothing.
\<close>

definition driver_inv :: "nat \<Rightarrow> 'p::comm_monoid_add ecmult_multi_state \<Rightarrow> bool" where
  "driver_inv n st =
     (n \<le> length (sc_st st) \<and> n \<le> length (pt_st st) \<and>
      size_heap (heap_st st) \<le> length (tree (heap_st st)) \<and>
      distinct (held st) \<and>
      (\<forall>i\<in>set (held st). i < n \<and> sc_st st ! i \<noteq> 0) \<and>
      heap_invariant (heap_st st) (sc_st st) \<and>
      (\<forall>i\<in>set (heap_indices (heap_st st)). sc_st st ! i \<le> sc_st st ! first_st st) \<and>
      (\<forall>i\<in>{0..<n}. i \<notin> set (held st) \<longrightarrow> sc_st st ! i = 0 \<or> pt_st st ! i = 0))"

text \<open>The state in which \<^verbatim>\<open>secp256k1_ecmult_multi\<close> first tests \<^verbatim>\<open>heap.size > 0\<close>: the
  heap is built and its root removed into \<open>first\<close>. There is none if the function returned
  before (no active term, or a failed check).\<close>

definition driver_start ::
  "secp256k1_scalar_heap \<Rightarrow> secp256k1_scalar list \<Rightarrow> 'p::comm_monoid_add list \<Rightarrow> nat
     \<Rightarrow> 'p ecmult_multi_state option" where
  "driver_start h0 sc pt n =
     (case secp256k1_heap_initialize h0 sc pt n of
        Inl e \<Rightarrow> None
      | Inr heap \<Rightarrow>
          if size_heap heap = 0 then None
          else (case secp256k1_heap_remove heap sc of
                  Inl e \<Rightarrow> None
                | Inr (first, heap) \<Rightarrow>
                    Some \<lparr>sc_st = sc, pt_st = pt, heap_st = heap, first_st = first\<rparr>))"

text \<open>The state at the head of the \<^verbatim>\<open>while\<close> loop after exactly \<open>k\<close> more rounds, if the
  loop runs that many without an error.\<close>

fun driver_rounds ::
  "nat \<Rightarrow> 'p::comm_monoid_add ecmult_multi_state \<Rightarrow> 'p ecmult_multi_state option" where
  "driver_rounds 0 st = Some st"
| "driver_rounds (Suc k) st =
     (if size_heap (heap_st st) > 0 then
        case secp256k1_ecmult_multi_round st of
          Some (Inr st') \<Rightarrow> driver_rounds k st'
        | _ \<Rightarrow> None
      else None)"

text \<open>The state of the driver at the head of the \<^verbatim>\<open>while\<close> loop, \<open>k\<close> rounds into the run.\<close>

definition driver_at ::
  "nat \<Rightarrow> secp256k1_scalar_heap \<Rightarrow> secp256k1_scalar list \<Rightarrow> 'p::comm_monoid_add list \<Rightarrow> nat
     \<Rightarrow> 'p ecmult_multi_state option" where
  "driver_at k h0 sc pt n =
     (case driver_start h0 sc pt n of None \<Rightarrow> None | Some st \<Rightarrow> driver_rounds k st)"

text \<open>The inputs \<^verbatim>\<open>secp256k1_ecmult_multi\<close> is specified for: at most
  \<^verbatim>\<open>SECP256K1_ECMULT_MULTI_MAX_N\<close> terms, two arrays with a slot for each, and the local
  heap with its array of that many entries.\<close>

definition driver_input ::
  "secp256k1_scalar_heap \<Rightarrow> secp256k1_scalar list \<Rightarrow> 'p::comm_monoid_add list \<Rightarrow> nat \<Rightarrow> bool" where
  "driver_input h0 sc pt n =
     (length (tree h0) = SECP256K1_ECMULT_MULTI_MAX_N \<and> n \<le> SECP256K1_ECMULT_MULTI_MAX_N \<and>
      n \<le> length sc \<and> n \<le> length pt)"

section \<open>Properties of the heap operations\<close>

declare secp256k1_sift_down.simps [simp del]

declare secp256k1_sift_up.simps [simp del]

declare secp256k1_sift_floyd_loop.simps [simp del]

declare secp256k1_heapify_loop.simps [simp del]

declare secp256k1_heap_initialize_loop.simps [simp del]

lemma cmp_var_gt [simp]: "(secp256k1_scalar_cmp_var a b > 0) = (b < a)"
  by (simp add: secp256k1_scalar_cmp_var_def)

lemma cmp_var_le [simp]: "(secp256k1_scalar_cmp_var a b \<le> 0) = (a \<le> b)"
  by (simp add: secp256k1_scalar_cmp_var_def)

lemma cmp_var_ge [simp]: "(secp256k1_scalar_cmp_var a b \<ge> 0) = (b \<le> a)"
  by (simp add: secp256k1_scalar_cmp_var_def)

lemma sift_down_unfold:
  "secp256k1_sift_down h sc node index =
     (if node < size_heap h div 2 then
        if sc ! (tree h ! larger_child h sc node) < sc ! index
        then h\<lparr>tree := (tree h)[node := index]\<rparr>
        else secp256k1_sift_down (h\<lparr>tree := (tree h)[node := tree h ! larger_child h sc node]\<rparr>)
               sc (larger_child h sc node) index
      else h\<lparr>tree := (tree h)[node := index]\<rparr>)"
  by (subst secp256k1_sift_down.simps) (simp add: larger_child_def Let_def)

lemma sift_up_unfold:
  "secp256k1_sift_up h sc node index =
     (if node > 0 then
        if sc ! index \<le> sc ! (tree h ! ((node - 1) div 2))
        then h\<lparr>tree := (tree h)[node := index]\<rparr>
        else secp256k1_sift_up (h\<lparr>tree := (tree h)[node := tree h ! ((node - 1) div 2)]\<rparr>)
               sc ((node - 1) div 2) index
      else h\<lparr>tree := (tree h)[node := index]\<rparr>)"
  by (subst secp256k1_sift_up.simps) (simp add: Let_def)

lemma sift_floyd_loop_unfold:
  "secp256k1_sift_floyd_loop h sc node =
     (if node < size_heap h div 2 then
        secp256k1_sift_floyd_loop (h\<lparr>tree := (tree h)[node := tree h ! larger_child h sc node]\<rparr>)
               sc (larger_child h sc node)
      else (h, node))"
  by (subst secp256k1_sift_floyd_loop.simps) (simp add: larger_child_def Let_def)

lemma larger_child_cases:
  "larger_child h sc node = 2 * node + 1 \<or> larger_child h sc node = 2 * node + 2"
  by (simp add: larger_child_def)

lemma larger_child_less:
  "node < size_heap h div 2 \<Longrightarrow> larger_child h sc node < size_heap h"
  by (auto simp: larger_child_def)

lemma larger_child_greater: "node < larger_child h sc node"
  by (simp add: larger_child_def)

lemma larger_child_parent [simp]: "(larger_child h sc node - Suc 0) div 2 = node"
  by (simp add: larger_child_def)

lemma larger_child_max:
  "k < size_heap h \<Longrightarrow> k = 2 * node + 1 \<or> k = 2 * node + 2 \<Longrightarrow>
   sc ! (tree h ! k) \<le> sc ! (tree h ! larger_child h sc node)"
  by (auto simp: larger_child_def)

lemma larger_child_update [simp]:
  "i \<le> node \<Longrightarrow> larger_child (h\<lparr>tree := (tree h)[i := x]\<rparr>) sc node = larger_child h sc node"
  by (simp add: larger_child_def)

lemma heap_invariant_below: "heap_invariant h sc = heap_below 0 h sc"
proof
  assume inv: "heap_invariant h sc"
  show "heap_below 0 h sc"
    unfolding heap_below_def
  proof (intro allI impI)
    fix j k
    assume a: "0 \<le> j \<and> k < size_heap h \<and> (k = 2 * j + 1 \<or> k = 2 * j + 2)"
    then have "k \<in> {1..<size_heap h}" and "(k - 1) div 2 = j" by auto
    with inv show "sc ! (tree h ! k) \<le> sc ! (tree h ! j)"
      unfolding heap_invariant_def by blast
  qed
next
  assume below: "heap_below 0 h sc"
  show "heap_invariant h sc"
    unfolding heap_invariant_def
  proof
    fix node
    assume n: "node \<in> {1..<size_heap h}"
    then have "node = 2 * ((node - 1) div 2) + 1 \<or> node = 2 * ((node - 1) div 2) + 2"
      by auto
    with below n show "sc ! (tree h ! node) \<le> sc ! (tree h ! ((node - 1) div 2))"
      unfolding heap_below_def by auto
  qed
qed

lemma place_below:
  assumes len: "size_heap h \<le> length (tree h)" and node: "node < size_heap h"
    and A1: "\<And>j k. lo \<le> j \<Longrightarrow> j \<noteq> node \<Longrightarrow> k \<noteq> node \<Longrightarrow> k < size_heap h \<Longrightarrow>
               k = 2 * j + 1 \<or> k = 2 * j + 2 \<Longrightarrow> sc ! (tree h ! k) \<le> sc ! (tree h ! j)"
    and A2: "\<And>j. lo \<le> j \<Longrightarrow> node = 2 * j + 1 \<or> node = 2 * j + 2 \<Longrightarrow>
               sc ! index \<le> sc ! (tree h ! j)"
    and C: "\<And>k. lo \<le> node \<Longrightarrow> k < size_heap h \<Longrightarrow> k = 2 * node + 1 \<or> k = 2 * node + 2 \<Longrightarrow>
               sc ! (tree h ! k) \<le> sc ! index"
  shows "heap_below lo (h\<lparr>tree := (tree h)[node := index]\<rparr>) sc"
  unfolding heap_below_def
proof (intro allI impI)
  fix j k
  let ?h = "h\<lparr>tree := (tree h)[node := index]\<rparr>"
  assume a: "lo \<le> j \<and> k < size_heap ?h \<and> (k = 2 * j + 1 \<or> k = 2 * j + 2)"
  then have lo: "lo \<le> j" and k: "k < size_heap h" and kj: "k = 2 * j + 1 \<or> k = 2 * j + 2"
    by auto
  have jk: "j \<noteq> k" "j < k" using kj by auto
  have nlen: "node < length (tree h)" using len node by simp
  show "sc ! (tree ?h ! k) \<le> sc ! (tree ?h ! j)"
  proof (cases "k = node")
    case True
    then have "j \<noteq> node" using jk by simp
    with True nlen A2[OF lo] kj show ?thesis by simp
  next
    case kn: False
    show ?thesis
    proof (cases "j = node")
      case True
      with kn nlen C k kj lo show ?thesis by simp
    next
      case False
      with kn A1[OF lo False kn k kj] show ?thesis by simp
    qed
  qed
qed

lemma sift_down_below:
  assumes "size_heap h \<le> length (tree h)" and "node < size_heap h"
    and "\<And>j k. lo \<le> j \<Longrightarrow> j \<noteq> node \<Longrightarrow> k \<noteq> node \<Longrightarrow> k < size_heap h \<Longrightarrow>
               k = 2 * j + 1 \<or> k = 2 * j + 2 \<Longrightarrow> sc ! (tree h ! k) \<le> sc ! (tree h ! j)"
    and "\<And>j. lo \<le> j \<Longrightarrow> node = 2 * j + 1 \<or> node = 2 * j + 2 \<Longrightarrow>
               sc ! index \<le> sc ! (tree h ! j)"
    and "\<And>j k. lo \<le> j \<Longrightarrow> node = 2 * j + 1 \<or> node = 2 * j + 2 \<Longrightarrow> k < size_heap h \<Longrightarrow>
               k = 2 * node + 1 \<or> k = 2 * node + 2 \<Longrightarrow> sc ! (tree h ! k) \<le> sc ! (tree h ! j)"
  shows "heap_below lo (secp256k1_sift_down h sc node index) sc"
  using assms
proof (induction "size_heap h - node" arbitrary: h node rule: less_induct)
  case less
  note len = less.prems(1) and node = less.prems(2) and A1 = less.prems(3)
    and A2 = less.prems(4) and A3 = less.prems(5)
  let ?c = "larger_child h sc node"
  show ?case
  proof (cases "node < size_heap h div 2")
    case False
    then have "secp256k1_sift_down h sc node index = h\<lparr>tree := (tree h)[node := index]\<rparr>"
      by (subst sift_down_unfold) simp
    moreover have "heap_below lo (h\<lparr>tree := (tree h)[node := index]\<rparr>) sc"
      using len node A1 A2
    proof (rule place_below)
      fix k assume "k < size_heap h" "k = 2 * node + 1 \<or> k = 2 * node + 2"
      with False show "sc ! (tree h ! k) \<le> sc ! index" by auto
    qed
    ultimately show ?thesis by simp
  next
    case half: True
    have c_lt: "?c < size_heap h" using half by (rule larger_child_less)
    have c_gt: "node < ?c" by (rule larger_child_greater)
    have c_cases: "?c = 2 * node + 1 \<or> ?c = 2 * node + 2" by (rule larger_child_cases)
    show ?thesis
    proof (cases "sc ! (tree h ! ?c) < sc ! index")
      case True
      with half have "secp256k1_sift_down h sc node index = h\<lparr>tree := (tree h)[node := index]\<rparr>"
        by (subst sift_down_unfold) simp
      moreover have "heap_below lo (h\<lparr>tree := (tree h)[node := index]\<rparr>) sc"
        using len node A1 A2
      proof (rule place_below)
        fix k assume k: "k < size_heap h" "k = 2 * node + 1 \<or> k = 2 * node + 2"
        have "sc ! (tree h ! k) \<le> sc ! (tree h ! ?c)" using k by (rule larger_child_max)
        with True show "sc ! (tree h ! k) \<le> sc ! index" by simp
      qed
      ultimately show ?thesis by simp
    next
      case False
      let ?h = "h\<lparr>tree := (tree h)[node := tree h ! ?c]\<rparr>"
      have eq: "secp256k1_sift_down h sc node index = secp256k1_sift_down ?h sc ?c index"
        using half False by (subst sift_down_unfold) simp
      have nlen: "node < length (tree h)" using len node by simp
      have "heap_below lo (secp256k1_sift_down ?h sc ?c index) sc"
      proof (rule less.hyps)
        show "size_heap ?h - ?c < size_heap h - node" using c_lt c_gt by simp
        show "size_heap ?h \<le> length (tree ?h)" using len by simp
        show "?c < size_heap ?h" using c_lt by simp
      next
        fix j k
        assume lo: "lo \<le> j" and jc: "j \<noteq> ?c" and kc: "k \<noteq> ?c" and k: "k < size_heap ?h"
          and kj: "k = 2 * j + 1 \<or> k = 2 * j + 2"
        show "sc ! (tree ?h ! k) \<le> sc ! (tree ?h ! j)"
        proof (cases "j = node")
          case True
          then have "k \<noteq> node" using kj by auto
          moreover have "sc ! (tree h ! k) \<le> sc ! (tree h ! ?c)"
            using k kj True larger_child_max[of k h node sc] by simp
          ultimately show ?thesis using True nlen by simp
        next
          case jn: False
          show ?thesis
          proof (cases "k = node")
            case True
            have "sc ! (tree h ! ?c) \<le> sc ! (tree h ! j)"
              using A3[OF lo _ c_lt c_cases] kj True by simp
            moreover have "j \<noteq> node" using True kj by auto
            ultimately show ?thesis using True nlen by simp
          next
            case False
            with jn A1[OF lo jn False _ kj] k show ?thesis by simp
          qed
        qed
      next
        fix j
        assume lo: "lo \<le> j" and cj: "?c = 2 * j + 1 \<or> ?c = 2 * j + 2"
        from cj c_cases have "j = node" by auto
        with False nlen show "sc ! index \<le> sc ! (tree ?h ! j)" by simp
      next
        fix j k
        assume lo: "lo \<le> j" and cj: "?c = 2 * j + 1 \<or> ?c = 2 * j + 2" and k: "k < size_heap ?h"
          and kc: "k = 2 * ?c + 1 \<or> k = 2 * ?c + 2"
        from cj c_cases have j: "j = node" by auto
        have "lo \<le> ?c" using lo j c_gt by simp
        moreover have "?c \<noteq> node" "k \<noteq> node" using c_gt kc by auto
        ultimately have "sc ! (tree h ! k) \<le> sc ! (tree h ! ?c)"
          using A1[of ?c k] k kc by simp
        moreover have "k \<noteq> node" using kc c_gt by auto
        ultimately show "sc ! (tree ?h ! k) \<le> sc ! (tree ?h ! j)" using j nlen by simp
      qed
      with eq show ?thesis by simp
    qed
  qed
qed

lemma sift_down_size [simp]: "size_heap (secp256k1_sift_down h sc node index) = size_heap h"
proof (induction "size_heap h - node" arbitrary: h node rule: less_induct)
  case less
  show ?case
  proof (cases "node < size_heap h div 2 \<and> \<not> sc ! (tree h ! larger_child h sc node) < sc ! index")
    case True
    let ?c = "larger_child h sc node"
    let ?h = "h\<lparr>tree := (tree h)[node := tree h ! ?c]\<rparr>"
    have "size_heap ?h - ?c < size_heap h - node"
      using True larger_child_less[of node h sc] larger_child_greater[of node h sc] by simp
    then have "size_heap (secp256k1_sift_down ?h sc ?c index) = size_heap ?h" by (rule less.hyps)
    with True show ?thesis by (subst sift_down_unfold) simp
  next
    case False
    then show ?thesis by (subst sift_down_unfold) auto
  qed
qed

lemma sift_down_length [simp]:
  "length (tree (secp256k1_sift_down h sc node index)) = length (tree h)"
proof (induction "size_heap h - node" arbitrary: h node rule: less_induct)
  case less
  show ?case
  proof (cases "node < size_heap h div 2 \<and> \<not> sc ! (tree h ! larger_child h sc node) < sc ! index")
    case True
    let ?c = "larger_child h sc node"
    let ?h = "h\<lparr>tree := (tree h)[node := tree h ! ?c]\<rparr>"
    have "size_heap ?h - ?c < size_heap h - node"
      using True larger_child_less[of node h sc] larger_child_greater[of node h sc] by simp
    then have "length (tree (secp256k1_sift_down ?h sc ?c index)) = length (tree ?h)"
      by (rule less.hyps)
    with True show ?thesis by (subst sift_down_unfold) simp
  next
    case False
    then show ?thesis by (subst sift_down_unfold) auto
  qed
qed

lemma mset_update_pair:
  assumes "i < length xs" and "j < length xs"
  shows "mset (xs[i := xs ! j, j := x]) = mset (xs[i := x])"
proof (cases "i = j")
  case True
  then show ?thesis by simp
next
  case False
  let ?ys = "xs[i := x]"
  have "mset (?ys[j := ?ys ! i, i := ?ys ! j]) = mset ?ys"
    using assms by (intro mset_swap) simp_all
  moreover have "?ys[j := ?ys ! i, i := ?ys ! j] = xs[i := xs ! j, j := x]"
    using assms False by (simp add: list_update_swap[of i j])
  ultimately show ?thesis by simp
qed

lemma sift_down_mset:
  assumes "size_heap h \<le> length (tree h)" and "node < size_heap h"
  shows "mset (heap_indices (secp256k1_sift_down h sc node index)) =
         mset (heap_indices (h\<lparr>tree := (tree h)[node := index]\<rparr>))"
  using assms
proof (induction "size_heap h - node" arbitrary: h node rule: less_induct)
  case less
  note len = less.prems(1) and node = less.prems(2)
  show ?case
  proof (cases "node < size_heap h div 2 \<and> \<not> sc ! (tree h ! larger_child h sc node) < sc ! index")
    case True
    let ?c = "larger_child h sc node"
    let ?h = "h\<lparr>tree := (tree h)[node := tree h ! ?c]\<rparr>"
    have c: "?c < size_heap h" "node < ?c"
      using True larger_child_less[of node h sc] larger_child_greater[of node h sc] by simp_all
    have "mset (heap_indices (secp256k1_sift_down ?h sc ?c index)) =
          mset (heap_indices (?h\<lparr>tree := (tree ?h)[?c := index]\<rparr>))"
      using c len by (intro less.hyps) simp_all
    also have "\<dots> = mset ((take (size_heap h) (tree h))[node := take (size_heap h) (tree h) ! ?c, ?c := index])"
      using c node by (simp add: heap_indices_def take_update_swap)
    also have "\<dots> = mset ((take (size_heap h) (tree h))[node := index])"
      using c node len by (intro mset_update_pair) simp_all
    also have "\<dots> = mset (heap_indices (h\<lparr>tree := (tree h)[node := index]\<rparr>))"
      by (simp add: heap_indices_def take_update_swap)
    finally show ?thesis using True by (subst sift_down_unfold) simp
  next
    case False
    then show ?thesis by (subst sift_down_unfold) auto
  qed
qed

lemma heap_root_max:
  assumes "heap_invariant h sc" and "k < size_heap h"
  shows "sc ! (tree h ! k) \<le> sc ! (tree h ! 0)"
  using assms(2)
proof (induction k rule: less_induct)
  case (less k)
  show ?case
  proof (cases "k = 0")
    case True
    then show ?thesis by simp
  next
    case False
    with less.prems have "k \<in> {1..<size_heap h}" by simp
    with assms(1) have "sc ! (tree h ! k) \<le> sc ! (tree h ! ((k - 1) div 2))"
      unfolding heap_invariant_def by blast
    moreover have "sc ! (tree h ! ((k - 1) div 2)) \<le> sc ! (tree h ! 0)"
      using False less.prems by (intro less.IH) auto
    ultimately show ?thesis by simp
  qed
qed

lemma sift_up_size [simp]: "size_heap (secp256k1_sift_up h sc node index) = size_heap h"
proof (induction node arbitrary: h rule: less_induct)
  case (less node)
  show ?case
  proof (cases "0 < node \<and> \<not> sc ! index \<le> sc ! (tree h ! ((node - 1) div 2))")
    case True
    let ?h = "h\<lparr>tree := (tree h)[node := tree h ! ((node - 1) div 2)]\<rparr>"
    have "size_heap (secp256k1_sift_up ?h sc ((node - 1) div 2) index) = size_heap ?h"
      using True by (intro less.IH) auto
    with True show ?thesis by (subst sift_up_unfold) simp
  next
    case False
    then show ?thesis by (subst sift_up_unfold) auto
  qed
qed

lemma sift_up_length [simp]:
  "length (tree (secp256k1_sift_up h sc node index)) = length (tree h)"
proof (induction node arbitrary: h rule: less_induct)
  case (less node)
  show ?case
  proof (cases "0 < node \<and> \<not> sc ! index \<le> sc ! (tree h ! ((node - 1) div 2))")
    case True
    let ?h = "h\<lparr>tree := (tree h)[node := tree h ! ((node - 1) div 2)]\<rparr>"
    have "length (tree (secp256k1_sift_up ?h sc ((node - 1) div 2) index)) = length (tree ?h)"
      using True by (intro less.IH) auto
    with True show ?thesis by (subst sift_up_unfold) simp
  next
    case False
    then show ?thesis by (subst sift_up_unfold) auto
  qed
qed

lemma sift_up_mset:
  assumes "size_heap h \<le> length (tree h)" and "node < size_heap h"
  shows "mset (heap_indices (secp256k1_sift_up h sc node index)) =
         mset (heap_indices (h\<lparr>tree := (tree h)[node := index]\<rparr>))"
  using assms
proof (induction node arbitrary: h rule: less_induct)
  case (less node)
  note len = less.prems(1) and node = less.prems(2)
  show ?case
  proof (cases "0 < node \<and> \<not> sc ! index \<le> sc ! (tree h ! ((node - 1) div 2))")
    case True
    let ?p = "(node - 1) div 2"
    let ?h = "h\<lparr>tree := (tree h)[node := tree h ! ?p]\<rparr>"
    have p: "?p < node" using True by auto
    have "mset (heap_indices (secp256k1_sift_up ?h sc ?p index)) =
          mset (heap_indices (?h\<lparr>tree := (tree ?h)[?p := index]\<rparr>))"
      using p len node by (intro less.IH) simp_all
    also have "\<dots> = mset ((take (size_heap h) (tree h))[node := take (size_heap h) (tree h) ! ?p, ?p := index])"
      using p node by (simp add: heap_indices_def take_update_swap)
    also have "\<dots> = mset ((take (size_heap h) (tree h))[node := index])"
      using p node len by (intro mset_update_pair) simp_all
    also have "\<dots> = mset (heap_indices (h\<lparr>tree := (tree h)[node := index]\<rparr>))"
      by (simp add: heap_indices_def take_update_swap)
    finally show ?thesis using True by (subst sift_up_unfold) simp
  next
    case False
    then show ?thesis by (subst sift_up_unfold) auto
  qed
qed

lemma sift_up_below:
  assumes "size_heap h \<le> length (tree h)" and "node < size_heap h"
    and "\<And>j k. j \<noteq> node \<Longrightarrow> k \<noteq> node \<Longrightarrow> k < size_heap h \<Longrightarrow>
               k = 2 * j + 1 \<or> k = 2 * j + 2 \<Longrightarrow> sc ! (tree h ! k) \<le> sc ! (tree h ! j)"
    and "\<And>k. k < size_heap h \<Longrightarrow> k = 2 * node + 1 \<or> k = 2 * node + 2 \<Longrightarrow>
               sc ! (tree h ! k) \<le> sc ! index"
    and "\<And>j k. node = 2 * j + 1 \<or> node = 2 * j + 2 \<Longrightarrow> k < size_heap h \<Longrightarrow>
               k = 2 * node + 1 \<or> k = 2 * node + 2 \<Longrightarrow> sc ! (tree h ! k) \<le> sc ! (tree h ! j)"
  shows "heap_below 0 (secp256k1_sift_up h sc node index) sc"
  using assms
proof (induction node arbitrary: h rule: less_induct)
  case (less node)
  note len = less.prems(1) and node = less.prems(2) and B1 = less.prems(3)
    and B2 = less.prems(4) and B3 = less.prems(5)
  let ?p = "(node - 1) div 2"
  have nlen: "node < length (tree h)" using len node by simp
  show ?case
  proof (cases "0 < node")
    case False
    then have "secp256k1_sift_up h sc node index = h\<lparr>tree := (tree h)[node := index]\<rparr>"
      by (subst sift_up_unfold) simp
    moreover have "heap_below 0 (h\<lparr>tree := (tree h)[node := index]\<rparr>) sc"
      using len node
    proof (rule place_below)
      fix j assume "node = 2 * j + 1 \<or> node = 2 * j + 2"
      with False show "sc ! index \<le> sc ! (tree h ! j)" by simp
    qed (use B1 B2 in auto)
    ultimately show ?thesis by simp
  next
    case pos: True
    then have p: "?p < node" and np: "node = 2 * ?p + 1 \<or> node = 2 * ?p + 2" by auto
    show ?thesis
    proof (cases "sc ! index \<le> sc ! (tree h ! ?p)")
      case True
      with pos have "secp256k1_sift_up h sc node index = h\<lparr>tree := (tree h)[node := index]\<rparr>"
        by (subst sift_up_unfold) simp
      moreover have "heap_below 0 (h\<lparr>tree := (tree h)[node := index]\<rparr>) sc"
        using len node
      proof (rule place_below)
        fix j assume "node = 2 * j + 1 \<or> node = 2 * j + 2"
        then have "j = ?p" by auto
        with True show "sc ! index \<le> sc ! (tree h ! j)" by simp
      qed (use B1 B2 in auto)
      ultimately show ?thesis by simp
    next
      case False
      let ?h = "h\<lparr>tree := (tree h)[node := tree h ! ?p]\<rparr>"
      have eq: "secp256k1_sift_up h sc node index = secp256k1_sift_up ?h sc ?p index"
        using pos False by (subst sift_up_unfold) simp
      have "heap_below 0 (secp256k1_sift_up ?h sc ?p index) sc"
      proof (rule less.IH)
        show "?p < node" by (rule p)
        show "size_heap ?h \<le> length (tree ?h)" using len by simp
        show "?p < size_heap ?h" using p node by simp
      next
        fix j k
        assume jp: "j \<noteq> ?p" and kp: "k \<noteq> ?p" and k: "k < size_heap ?h"
          and kj: "k = 2 * j + 1 \<or> k = 2 * j + 2"
        show "sc ! (tree ?h ! k) \<le> sc ! (tree ?h ! j)"
        proof (cases "k = node")
          case True
          with kj np have "j = ?p" by auto
          with jp show ?thesis by simp
        next
          case kn: False
          show ?thesis
          proof (cases "j = node")
            case True
            have "sc ! (tree h ! k) \<le> sc ! (tree h ! ?p)"
              using B3[OF np, of k] k kj True by simp
            with True kn nlen show ?thesis by simp
          next
            case False
            with kn B1[OF False kn _ kj] k show ?thesis by simp
          qed
        qed
      next
        fix k
        assume k: "k < size_heap ?h" and kp: "k = 2 * ?p + 1 \<or> k = 2 * ?p + 2"
        show "sc ! (tree ?h ! k) \<le> sc ! index"
        proof (cases "k = node")
          case True
          with False nlen show ?thesis by simp
        next
          case kn: False
          have "?p \<noteq> node" using p by simp
          then have "sc ! (tree h ! k) \<le> sc ! (tree h ! ?p)"
            using B1[of ?p k] kn k kp by simp
          with False kn show ?thesis by simp
        qed
      next
        fix j k
        assume pj: "?p = 2 * j + 1 \<or> ?p = 2 * j + 2" and k: "k < size_heap ?h"
          and kp: "k = 2 * ?p + 1 \<or> k = 2 * ?p + 2"
        have jn: "j \<noteq> node" "j \<noteq> ?p" using pj p by auto
        have pp: "sc ! (tree h ! ?p) \<le> sc ! (tree h ! j)"
          using B1[of j ?p] jn p pj node by simp
        show "sc ! (tree ?h ! k) \<le> sc ! (tree ?h ! j)"
        proof (cases "k = node")
          case True
          with pp jn nlen show ?thesis by simp
        next
          case kn: False
          have "?p \<noteq> node" using p by simp
          then have "sc ! (tree h ! k) \<le> sc ! (tree h ! ?p)"
            using B1[of ?p k] kn k kp by simp
          with pp kn jn show ?thesis by simp
        qed
      qed
      with eq show ?thesis by simp
    qed
  qed
qed

lemma sift_floyd_unfold:
  "secp256k1_sift_floyd h sc node index =
     (if node < size_heap h div 2 then
        secp256k1_sift_floyd (h\<lparr>tree := (tree h)[node := tree h ! larger_child h sc node]\<rparr>)
               sc (larger_child h sc node) index
      else secp256k1_sift_up h sc node index)"
  unfolding secp256k1_sift_floyd_def
  by (subst sift_floyd_loop_unfold) simp

lemma sift_up_ignores_node:
  "secp256k1_sift_up (h\<lparr>tree := (tree h)[node := x]\<rparr>) sc node index =
   secp256k1_sift_up h sc node index"
proof -
  let ?h = "h\<lparr>tree := (tree h)[node := x]\<rparr>"
  note L = sift_up_unfold[of ?h sc node index] and R = sift_up_unfold[of h sc node index]
  show ?thesis
  proof (cases "0 < node")
    case False
    then show ?thesis unfolding L R by simp
  next
    case True
    then have "(node - 1) div 2 \<noteq> node" by auto
    then have "tree ?h ! ((node - 1) div 2) = tree h ! ((node - 1) div 2)" by simp
    then show ?thesis unfolding L R by simp
  qed
qed

lemma sift_floyd_eq_sift_up:
  assumes "size_heap h \<le> length (tree h)"
    and "\<And>j k. node < j \<Longrightarrow> k < size_heap h \<Longrightarrow> k = 2 * j + 1 \<or> k = 2 * j + 2 \<Longrightarrow>
               sc ! (tree h ! k) \<le> sc ! (tree h ! j)"
    and "node < size_heap h div 2 \<Longrightarrow> sc ! (tree h ! larger_child h sc node) < sc ! index"
  shows "secp256k1_sift_floyd h sc node index = secp256k1_sift_up h sc node index"
  using assms
proof (induction "size_heap h - node" arbitrary: h node rule: less_induct)
  case less
  note len = less.prems(1) and A = less.prems(2) and G = less.prems(3)
  let ?c = "larger_child h sc node"
  let ?h = "h\<lparr>tree := (tree h)[node := tree h ! ?c]\<rparr>"
  show ?case
  proof (cases "node < size_heap h div 2")
    case False
    then show ?thesis by (subst sift_floyd_unfold) simp
  next
    case half: True
    have c_lt: "?c < size_heap h" using half by (rule larger_child_less)
    have c_gt: "node < ?c" by (rule larger_child_greater)
    have nlen: "node < length (tree h)" using len c_lt c_gt by simp
    have clen: "?c < length (tree h)" using len c_lt by simp
    have "secp256k1_sift_floyd h sc node index = secp256k1_sift_floyd ?h sc ?c index"
      using half by (subst sift_floyd_unfold) simp
    also have "\<dots> = secp256k1_sift_up ?h sc ?c index"
    proof (rule less.hyps)
      show "size_heap ?h - ?c < size_heap h - node" using c_lt c_gt by simp
      show "size_heap ?h \<le> length (tree ?h)" using len by simp
    next
      fix j k
      assume jk: "?c < j" "k < size_heap ?h" "k = 2 * j + 1 \<or> k = 2 * j + 2"
      then have "j \<noteq> node" "k \<noteq> node" using c_gt by auto
      then show "sc ! (tree ?h ! k) \<le> sc ! (tree ?h ! j)"
        using A[of j k] jk c_gt by simp
    next
      assume ch: "?c < size_heap ?h div 2"
      let ?d = "larger_child ?h sc ?c"
      have d: "?d = larger_child h sc ?c" using c_gt by simp
      have d_lt: "?d < size_heap h" using ch larger_child_less[of ?c ?h sc] by simp
      have d_gt: "?c < ?d" by (rule larger_child_greater)
      have "sc ! (tree h ! ?d) \<le> sc ! (tree h ! ?c)"
        using A[of ?c ?d] c_gt d_lt larger_child_cases[of ?h sc ?c] by auto
      moreover have "tree ?h ! ?d = tree h ! ?d" using d_gt c_gt by simp
      ultimately show "sc ! (tree ?h ! ?d) < sc ! index" using G[OF half] by simp
    qed
    also have "\<dots> = secp256k1_sift_up (?h\<lparr>tree := (tree ?h)[?c := tree ?h ! node]\<rparr>) sc node index"
      using c_gt G[OF half] nlen
      by (subst sift_up_unfold) simp
    also have "?h\<lparr>tree := (tree ?h)[?c := tree ?h ! node]\<rparr> = ?h"
      using nlen c_gt by (simp add: list_update_swap[of node ?c])
    also have "secp256k1_sift_up ?h sc node index = secp256k1_sift_up h sc node index"
      by (rule sift_up_ignores_node)
    finally show ?thesis .
  qed
qed

lemma sift_floyd_eq_sift_down:
  assumes "size_heap h \<le> length (tree h)"
    and "\<And>j k. node < j \<Longrightarrow> k < size_heap h \<Longrightarrow> k = 2 * j + 1 \<or> k = 2 * j + 2 \<Longrightarrow>
               sc ! (tree h ! k) \<le> sc ! (tree h ! j)"
    and "node = 0 \<or> sc ! index \<le> sc ! (tree h ! ((node - 1) div 2))"
  shows "secp256k1_sift_floyd h sc node index = secp256k1_sift_down h sc node index"
  using assms
proof (induction "size_heap h - node" arbitrary: h node rule: less_induct)
  case less
  note len = less.prems(1) and A = less.prems(2) and G = less.prems(3)
  let ?c = "larger_child h sc node"
  let ?h = "h\<lparr>tree := (tree h)[node := tree h ! ?c]\<rparr>"
  have stop: "secp256k1_sift_up h sc node index = h\<lparr>tree := (tree h)[node := index]\<rparr>"
    using G by (subst sift_up_unfold) auto
  show ?case
  proof (cases "node < size_heap h div 2")
    case False
    then have "secp256k1_sift_floyd h sc node index = secp256k1_sift_up h sc node index"
      by (subst sift_floyd_unfold) simp
    moreover have "secp256k1_sift_down h sc node index = h\<lparr>tree := (tree h)[node := index]\<rparr>"
      using False by (subst sift_down_unfold) simp
    ultimately show ?thesis using stop by simp
  next
    case half: True
    have c_lt: "?c < size_heap h" using half by (rule larger_child_less)
    have c_gt: "node < ?c" by (rule larger_child_greater)
    have nlen: "node < length (tree h)" using len c_lt c_gt by simp
    show ?thesis
    proof (cases "sc ! (tree h ! ?c) < sc ! index")
      case True
      have "secp256k1_sift_floyd h sc node index = secp256k1_sift_up h sc node index"
        using len A True by (intro sift_floyd_eq_sift_up) simp_all
      moreover have "secp256k1_sift_down h sc node index = h\<lparr>tree := (tree h)[node := index]\<rparr>"
        using half True by (subst sift_down_unfold) simp
      ultimately show ?thesis using stop by simp
    next
      case False
      have "secp256k1_sift_floyd h sc node index = secp256k1_sift_floyd ?h sc ?c index"
        using half by (subst sift_floyd_unfold) simp
      also have "\<dots> = secp256k1_sift_down ?h sc ?c index"
      proof (rule less.hyps)
        show "size_heap ?h - ?c < size_heap h - node" using c_lt c_gt by simp
        show "size_heap ?h \<le> length (tree ?h)" using len by simp
      next
        fix j k
        assume jk: "?c < j" "k < size_heap ?h" "k = 2 * j + 1 \<or> k = 2 * j + 2"
        then have "j \<noteq> node" "k \<noteq> node" using c_gt by auto
        then show "sc ! (tree ?h ! k) \<le> sc ! (tree ?h ! j)"
          using A[of j k] jk c_gt by simp
      next
        show "?c = 0 \<or> sc ! index \<le> sc ! (tree ?h ! ((?c - 1) div 2))"
          using False nlen by simp
      qed
      also have "\<dots> = secp256k1_sift_down h sc node index"
        using half False by (subst (2) sift_down_unfold) simp
      finally show ?thesis .
    qed
  qed
qed

lemma heap_below_half: "heap_below (size_heap h div 2) h sc"
  unfolding heap_below_def by auto

lemma heapify_loop_props:
  assumes "size_heap h \<le> length (tree h)" and "root \<le> size_heap h div 2"
    and "heap_below root h sc"
  shows "heap_below 0 (secp256k1_heapify_loop h sc root) sc \<and>
         size_heap (secp256k1_heapify_loop h sc root) = size_heap h \<and>
         length (tree (secp256k1_heapify_loop h sc root)) = length (tree h) \<and>
         mset (heap_indices (secp256k1_heapify_loop h sc root)) = mset (heap_indices h)"
  using assms
proof (induction root arbitrary: h)
  case 0
  then show ?case by (subst (1 2 3 4) secp256k1_heapify_loop.simps) simp
next
  case (Suc r)
  let ?h = "secp256k1_sift_down h sc r (tree h ! r)"
  have r: "r < size_heap h" using Suc.prems(2) by auto
  have eq: "secp256k1_heapify_loop h sc (Suc r) = secp256k1_heapify_loop ?h sc r"
    by (subst secp256k1_heapify_loop.simps) simp
  have below: "heap_below r ?h sc"
    using Suc.prems(1) r
  proof (rule sift_down_below)
    fix j k
    assume "r \<le> j" "j \<noteq> r" "k < size_heap h" "k = 2 * j + 1 \<or> k = 2 * j + 2"
    then show "sc ! (tree h ! k) \<le> sc ! (tree h ! j)"
      using Suc.prems(3) unfolding heap_below_def by auto
  qed auto
  have ms: "mset (heap_indices ?h) = mset (heap_indices h)"
    using sift_down_mset[OF Suc.prems(1) r, of sc "tree h ! r"] by simp
  have "heap_below 0 (secp256k1_heapify_loop ?h sc r) sc \<and>
        size_heap (secp256k1_heapify_loop ?h sc r) = size_heap ?h \<and>
        length (tree (secp256k1_heapify_loop ?h sc r)) = length (tree ?h) \<and>
        mset (heap_indices (secp256k1_heapify_loop ?h sc r)) = mset (heap_indices ?h)"
    using Suc.prems(1,2) below by (intro Suc.IH) simp_all
  with eq ms show ?case by simp
qed

lemma heapify_props:
  assumes "size_heap h \<le> length (tree h)"
  shows "heap_invariant (secp256k1_heapify h sc) sc \<and>
         size_heap (secp256k1_heapify h sc) = size_heap h \<and>
         length (tree (secp256k1_heapify h sc)) = length (tree h) \<and>
         mset (heap_indices (secp256k1_heapify h sc)) = mset (heap_indices h)"
  unfolding secp256k1_heapify_def heap_invariant_below
  using assms heap_below_half by (intro heapify_loop_props) simp_all

lemma heap_initialize_loop_props:
  assumes "n \<le> 256" and "n \<le> length t" and "sz \<le> i" and "i \<le> n"
    and "take sz t = active_indices scalars pt i"
  shows "case secp256k1_heap_initialize_loop t scalars pt n i sz of
           (t', sz') \<Rightarrow> length t' = length t \<and> sz' \<le> n \<and>
                         take sz' t' = active_indices scalars pt n"
  using assms
proof (induction "n - i" arbitrary: t i sz rule: less_induct)
  case less
  show ?case
  proof (cases "i < n")
    case False
    with less.prems show ?thesis
      by (subst secp256k1_heap_initialize_loop.simps) simp
  next
    case True
    let ?act = "\<not> secp256k1_scalar_is_zero (scalars ! i) \<and> \<not> secp256k1_gej_is_infinity (pt ! i)"
    show ?thesis
    proof (cases ?act)
      case act: True
      let ?t = "t[sz := i mod 256]"
      have sz: "sz < length t" using less.prems True by simp
      have "take (Suc sz) ?t = take sz t @ [i]"
        using sz less.prems(1) True by (simp add: take_Suc_conv_app_nth)
      then have tk: "take (sz + 1) ?t = active_indices scalars pt (i + 1)"
        using less.prems(5) act by (simp add: active_indices_def)
      have "case secp256k1_heap_initialize_loop ?t scalars pt n (i + 1) (sz + 1) of
              (t', sz') \<Rightarrow> length t' = length ?t \<and> sz' \<le> n \<and>
                            take sz' t' = active_indices scalars pt n"
        using less.prems True tk by (intro less.hyps) simp_all
      then show ?thesis
        using True act by (subst secp256k1_heap_initialize_loop.simps) simp
    next
      case inact: False
      have tk: "take sz t = active_indices scalars pt (i + 1)"
        using less.prems(5) inact by (simp add: active_indices_def)
      have "case secp256k1_heap_initialize_loop t scalars pt n (i + 1) sz of
              (t', sz') \<Rightarrow> length t' = length t \<and> sz' \<le> n \<and>
                            take sz' t' = active_indices scalars pt n"
        using less.prems True tk by (intro less.hyps) simp_all
      then show ?thesis
        using True inact by (subst secp256k1_heap_initialize_loop.simps) auto
    qed
  qed
qed

lemma heap_initialize_props:
  assumes "length (tree h0) = SECP256K1_ECMULT_MULTI_MAX_N"
    and "n \<le> SECP256K1_ECMULT_MULTI_MAX_N"
  shows "\<exists>h. secp256k1_heap_initialize h0 scalars pt n = Inr h \<and>
             heap_invariant h scalars \<and> size_heap h \<le> length (tree h) \<and>
             mset (heap_indices h) = mset (active_indices scalars pt n)"
proof -
  obtain t sz where loop: "secp256k1_heap_initialize_loop (tree h0) scalars pt n 0 0 = (t, sz)"
    by (cases "secp256k1_heap_initialize_loop (tree h0) scalars pt n 0 0")
  have "case secp256k1_heap_initialize_loop (tree h0) scalars pt n 0 0 of
          (t', sz') \<Rightarrow> length t' = length (tree h0) \<and> sz' \<le> n \<and>
                        take sz' t' = active_indices scalars pt n"
    using assms
    by (intro heap_initialize_loop_props)
       (simp_all add: SECP256K1_ECMULT_MULTI_MAX_N_def active_indices_def)
  with loop have t: "length t = length (tree h0)" "sz \<le> n" "take sz t = active_indices scalars pt n"
    by simp_all
  let ?h = "\<lparr>tree = t, size_heap = sz\<rparr>"
  have "size_heap ?h \<le> length (tree ?h)" using t assms by simp
  from heapify_props[OF this, of scalars]
  have "heap_invariant (secp256k1_heapify ?h scalars) scalars"
    and "size_heap (secp256k1_heapify ?h scalars) = sz"
    and "length (tree (secp256k1_heapify ?h scalars)) = length t"
    and "mset (heap_indices (secp256k1_heapify ?h scalars)) = mset (take sz t)"
    by (auto simp: heap_indices_def)
  with t loop assms show ?thesis
    by (simp add: secp256k1_heap_initialize_def)
qed

lemma heap_below_pairs:
  "heap_invariant h sc \<Longrightarrow> k < size_heap h \<Longrightarrow> k = 2 * j + 1 \<or> k = 2 * j + 2 \<Longrightarrow>
   sc ! (tree h ! k) \<le> sc ! (tree h ! j)"
  unfolding heap_invariant_below heap_below_def by blast

lemma sift_floyd_size [simp]: "size_heap (secp256k1_sift_floyd h sc node index) = size_heap h"
proof (induction "size_heap h - node" arbitrary: h node rule: less_induct)
  case less
  show ?case
  proof (cases "node < size_heap h div 2")
    case True
    let ?c = "larger_child h sc node"
    let ?h = "h\<lparr>tree := (tree h)[node := tree h ! ?c]\<rparr>"
    have "size_heap ?h - ?c < size_heap h - node"
      using True larger_child_less[of node h sc] larger_child_greater[of node h sc] by simp
    then have "size_heap (secp256k1_sift_floyd ?h sc ?c index) = size_heap ?h" by (rule less.hyps)
    with True show ?thesis by (subst sift_floyd_unfold) simp
  next
    case False
    then show ?thesis by (subst sift_floyd_unfold) simp
  qed
qed

lemma sift_down_root_props:
  assumes len: "size_heap h \<le> length (tree h)" and pos: "0 < size_heap h"
    and ord: "\<And>j k. 0 < k \<Longrightarrow> k < size_heap h \<Longrightarrow> k = 2 * j + 1 \<or> k = 2 * j + 2 \<Longrightarrow> 0 < j \<Longrightarrow>
                sc ! (tree h ! k) \<le> sc ! (tree h ! j)"
  shows "heap_invariant (secp256k1_sift_down h sc 0 index) sc"
    and "mset (heap_indices (secp256k1_sift_down h sc 0 index)) =
         add_mset index (mset (heap_indices h) - {#tree h ! 0#})"
proof -
  show "heap_invariant (secp256k1_sift_down h sc 0 index) sc"
    unfolding heap_invariant_below using len pos
  proof (rule sift_down_below)
    fix j k
    assume "j \<noteq> 0" "k \<noteq> 0" "k < size_heap h" "k = 2 * j + 1 \<or> k = 2 * j + 2"
    then show "sc ! (tree h ! k) \<le> sc ! (tree h ! j)" using ord[of k j] by simp
  qed simp_all
  have "mset (heap_indices (secp256k1_sift_down h sc 0 index)) =
        mset ((take (size_heap h) (tree h))[0 := index])"
    using sift_down_mset[OF len pos, of sc index]
    by (simp add: heap_indices_def take_update_swap)
  also have "\<dots> = add_mset index (mset (take (size_heap h) (tree h)) - {#take (size_heap h) (tree h) ! 0#})"
    using len pos by (intro mset_update) simp
  finally show "mset (heap_indices (secp256k1_sift_down h sc 0 index)) =
         add_mset index (mset (heap_indices h) - {#tree h ! 0#})"
    using pos by (simp add: heap_indices_def)
qed

lemma heap_remove_props:
  assumes len: "size_heap h \<le> length (tree h)" and pos: "0 < size_heap h"
    and inv: "heap_invariant h sc"
  shows "\<exists>h'. secp256k1_heap_remove h sc = Inr (tree h ! 0, h') \<and>
              heap_invariant h' sc \<and> size_heap h' = size_heap h - 1 \<and>
              length (tree h') = length (tree h) \<and>
              mset (heap_indices h') = mset (heap_indices h) - {#tree h ! 0#}"
proof (cases "size_heap h = 1")
  case True
  have "take 1 (tree h) = [tree h ! 0]"
    using len True by (cases "tree h") simp_all
  with True show ?thesis
    by (simp add: secp256k1_heap_remove_def heap_invariant_def heap_indices_def)
next
  case False
  let ?s = "size_heap h - 1"
  let ?h = "h\<lparr>size_heap := ?s\<rparr>"
  let ?r = "secp256k1_sift_down ?h sc 0 (tree h ! ?s)"
  have s: "0 < ?s" "?s < length (tree h)" using False pos len by simp_all
  have eq: "secp256k1_heap_remove h sc = Inr (tree h ! 0, ?r)"
    using pos False by (simp add: secp256k1_heap_remove_def Let_def)
  have len': "size_heap ?h \<le> length (tree ?h)" and pos': "0 < size_heap ?h"
    using s by simp_all
  have ord: "\<And>j k. 0 < k \<Longrightarrow> k < size_heap ?h \<Longrightarrow> k = 2 * j + 1 \<or> k = 2 * j + 2 \<Longrightarrow> 0 < j \<Longrightarrow>
                sc ! (tree ?h ! k) \<le> sc ! (tree ?h ! j)"
    using heap_below_pairs[OF inv] by simp
  note props = sift_down_root_props[OF len' pos' ord]
  have tk: "take (size_heap h) (tree h) = take ?s (tree h) @ [tree h ! ?s]"
    using s pos take_Suc_conv_app_nth[of ?s "tree h"] by simp
  have mem: "tree h ! 0 \<in># mset (take ?s (tree h))"
    using s by (cases "tree h") (simp_all add: take_Suc gr0_conv_Suc, auto)
  have "mset (heap_indices ?r) = add_mset (tree h ! ?s) (mset (take ?s (tree h)) - {#tree h ! 0#})"
    using props(2)[of "tree h ! ?s"] by (simp add: heap_indices_def)
  also have "\<dots> = mset (heap_indices h) - {#tree h ! 0#}"
    using mem by (simp add: heap_indices_def tk)
  finally have "mset (heap_indices ?r) = mset (heap_indices h) - {#tree h ! 0#}" .
  with eq props(1)[of "tree h ! ?s"] show ?thesis by simp
qed

lemma replace_eq_sift_down:
  assumes len: "size_heap h \<le> length (tree h)" and inv: "heap_invariant h sc"
  shows "secp256k1_sift_floyd h sc 0 index = secp256k1_sift_down h sc 0 index"
  using len
proof (rule sift_floyd_eq_sift_down)
  fix j k
  assume "k < size_heap h" "k = 2 * j + 1 \<or> k = 2 * j + 2"
  then show "sc ! (tree h ! k) \<le> sc ! (tree h ! j)" by (rule heap_below_pairs[OF inv])
qed simp

lemma replace_props:
  assumes len: "size_heap h \<le> length (tree h)" and pos: "0 < size_heap h"
    and inv: "heap_invariant h sc"
  shows "\<exists>h'. secp256k1_replace h sc index = Inr (tree h ! 0, h') \<and>
              heap_invariant h' sc \<and> size_heap h' = size_heap h \<and>
              length (tree h') = length (tree h) \<and>
              mset (heap_indices h') = add_mset index (mset (heap_indices h) - {#tree h ! 0#})"
proof -
  have eq: "secp256k1_replace h sc index = Inr (tree h ! 0, secp256k1_sift_down h sc 0 index)"
    using pos replace_eq_sift_down[OF len inv] by (simp add: secp256k1_replace_def)
  have ord: "\<And>j k. 0 < k \<Longrightarrow> k < size_heap h \<Longrightarrow> k = 2 * j + 1 \<or> k = 2 * j + 2 \<Longrightarrow> 0 < j \<Longrightarrow>
                sc ! (tree h ! k) \<le> sc ! (tree h ! j)"
    using heap_below_pairs[OF inv] by simp
  note props = sift_down_root_props[OF len pos ord]
  from eq props[of index] show ?thesis by simp
qed

lemma sift_down_untouched:
  "k < node \<Longrightarrow> tree (secp256k1_sift_down h sc node index) ! k = tree h ! k"
proof (induction "size_heap h - node" arbitrary: h node rule: less_induct)
  case less
  show ?case
  proof (cases "node < size_heap h div 2 \<and> \<not> sc ! (tree h ! larger_child h sc node) < sc ! index")
    case True
    let ?c = "larger_child h sc node"
    let ?h = "h\<lparr>tree := (tree h)[node := tree h ! ?c]\<rparr>"
    have c: "?c < size_heap h" "node < ?c"
      using True larger_child_less[of node h sc] larger_child_greater[of node h sc] by simp_all
    have "tree (secp256k1_sift_down ?h sc ?c index) ! k = tree ?h ! k"
      using c less.prems by (intro less.hyps) simp_all
    with True less.prems show ?thesis by (subst sift_down_unfold) simp
  next
    case False
    with less.prems show ?thesis by (subst sift_down_unfold) auto
  qed
qed

lemma sift_down_inv:
  assumes len: "size_heap h \<le> length (tree h)" and inv: "heap_invariant h sc"
    and node: "node < size_heap h"
    and G: "node = 0 \<or> sc ! index \<le> sc ! (tree h ! ((node - 1) div 2))"
  shows "heap_invariant (secp256k1_sift_down h sc node index) sc"
  unfolding heap_invariant_below using len node
proof (rule sift_down_below)
  fix j k
  assume "k < size_heap h" "k = 2 * j + 1 \<or> k = 2 * j + 2"
  then show "sc ! (tree h ! k) \<le> sc ! (tree h ! j)" by (rule heap_below_pairs[OF inv])
next
  fix j
  assume nj: "node = 2 * j + 1 \<or> node = 2 * j + 2"
  then have "(node - 1) div 2 = j" "node \<noteq> 0" by auto
  with G show "sc ! index \<le> sc ! (tree h ! j)" by simp
next
  fix j k
  assume nj: "node = 2 * j + 1 \<or> node = 2 * j + 2" and k: "k < size_heap h"
    and kn: "k = 2 * node + 1 \<or> k = 2 * node + 2"
  have "sc ! (tree h ! k) \<le> sc ! (tree h ! node)" using k kn by (rule heap_below_pairs[OF inv])
  also have "\<dots> \<le> sc ! (tree h ! j)" using node nj by (rule heap_below_pairs[OF inv])
  finally show "sc ! (tree h ! k) \<le> sc ! (tree h ! j)" .
qed

lemma sift_up_inv:
  assumes len: "size_heap h \<le> length (tree h)" and inv: "heap_invariant h sc"
    and node: "node < size_heap h"
    and G: "\<And>k. k < size_heap h \<Longrightarrow> k = 2 * node + 1 \<or> k = 2 * node + 2 \<Longrightarrow>
              sc ! (tree h ! k) \<le> sc ! index"
  shows "heap_invariant (secp256k1_sift_up h sc node index) sc"
  unfolding heap_invariant_below using len node
proof (rule sift_up_below)
  fix j k
  assume "k < size_heap h" "k = 2 * j + 1 \<or> k = 2 * j + 2"
  then show "sc ! (tree h ! k) \<le> sc ! (tree h ! j)" by (rule heap_below_pairs[OF inv])
next
  fix k
  assume "k < size_heap h" "k = 2 * node + 1 \<or> k = 2 * node + 2"
  then show "sc ! (tree h ! k) \<le> sc ! index" by (rule G)
next
  fix j k
  assume nj: "node = 2 * j + 1 \<or> node = 2 * j + 2" and k: "k < size_heap h"
    and kn: "k = 2 * node + 1 \<or> k = 2 * node + 2"
  have "sc ! (tree h ! k) \<le> sc ! (tree h ! node)" using k kn by (rule heap_below_pairs[OF inv])
  also have "\<dots> \<le> sc ! (tree h ! j)" using node nj by (rule heap_below_pairs[OF inv])
  finally show "sc ! (tree h ! k) \<le> sc ! (tree h ! j)" .
qed

lemma sift_floyd_inv:
  assumes len: "size_heap h \<le> length (tree h)" and inv: "heap_invariant h sc"
    and node: "node < size_heap h"
  shows "heap_invariant (secp256k1_sift_floyd h sc node index) sc"
proof (cases "node = 0 \<or> sc ! index \<le> sc ! (tree h ! ((node - 1) div 2))")
  case True
  have "secp256k1_sift_floyd h sc node index = secp256k1_sift_down h sc node index"
    using len
  proof (rule sift_floyd_eq_sift_down)
    fix j k
    assume "k < size_heap h" "k = 2 * j + 1 \<or> k = 2 * j + 2"
    then show "sc ! (tree h ! k) \<le> sc ! (tree h ! j)" by (rule heap_below_pairs[OF inv])
  qed (rule True)
  with sift_down_inv[OF len inv node True] show ?thesis by simp
next
  case False
  then have pos: "0 < node" and gt: "sc ! (tree h ! ((node - 1) div 2)) < sc ! index" by auto
  have par: "sc ! (tree h ! node) \<le> sc ! (tree h ! ((node - 1) div 2))"
    using pos node by (intro heap_below_pairs[OF inv]) auto
  have kids: "sc ! (tree h ! k) \<le> sc ! index"
    if "k < size_heap h" "k = 2 * node + 1 \<or> k = 2 * node + 2" for k
  proof -
    have "sc ! (tree h ! k) \<le> sc ! (tree h ! node)" using that by (rule heap_below_pairs[OF inv])
    with par gt show ?thesis by simp
  qed
  have "secp256k1_sift_floyd h sc node index = secp256k1_sift_up h sc node index"
    using len
  proof (rule sift_floyd_eq_sift_up)
    fix j k
    assume "k < size_heap h" "k = 2 * j + 1 \<or> k = 2 * j + 2"
    then show "sc ! (tree h ! k) \<le> sc ! (tree h ! j)" by (rule heap_below_pairs[OF inv])
  next
    assume "node < size_heap h div 2"
    then have "larger_child h sc node < size_heap h" by (rule larger_child_less)
    then have "sc ! (tree h ! larger_child h sc node) \<le> sc ! index"
      using larger_child_cases[of h sc node] by (intro kids) auto
    moreover have "sc ! (tree h ! larger_child h sc node) \<le> sc ! (tree h ! node)"
      using \<open>larger_child h sc node < size_heap h\<close> larger_child_cases[of h sc node]
      by (intro heap_below_pairs[OF inv]) auto
    ultimately show "sc ! (tree h ! larger_child h sc node) < sc ! index"
      using par gt by simp
  qed
  with sift_up_inv[OF len inv node kids] show ?thesis by simp
qed

section \<open>Claims about the heap\<close>

text \<open>
  Claim C7, as amended. At a node that has a child, \<^verbatim>\<open>secp256k1_sift_down\<close> compares the
  candidate's scalar with the scalar of the larger child (the right child counts only if it is
  present). If the candidate is strictly larger, it is placed at the node, nothing else changes
  and the descent stops. If the candidate is smaller or equal, the larger child moves up into
  the node and the descent continues from the child's position. At a node without children the
  candidate is placed at once.
\<close>

theorem sift_down_level:
  "heap_wf h sc \<Longrightarrow> index < length sc \<Longrightarrow> node < size_heap h \<Longrightarrow>
   (node < size_heap h div 2 \<and> sc ! (tree h ! larger_child h sc node) < sc ! index \<longrightarrow>
      secp256k1_sift_down h sc node index = h\<lparr>tree := (tree h)[node := index]\<rparr>) \<and>
   (node < size_heap h div 2 \<and> sc ! index \<le> sc ! (tree h ! larger_child h sc node) \<longrightarrow>
      secp256k1_sift_down h sc node index =
        secp256k1_sift_down (h\<lparr>tree := (tree h)[node := tree h ! larger_child h sc node]\<rparr>)
          sc (larger_child h sc node) index \<and>
      tree (secp256k1_sift_down h sc node index) ! node = tree h ! larger_child h sc node) \<and>
   (\<not> node < size_heap h div 2 \<longrightarrow>
      secp256k1_sift_down h sc node index = h\<lparr>tree := (tree h)[node := index]\<rparr>)"
proof -
  assume wf: "heap_wf h sc" and node: "node < size_heap h"
  have nlen: "node < length (tree h)" using wf node by (simp add: heap_wf_def)
  let ?c = "larger_child h sc node"
  let ?h = "h\<lparr>tree := (tree h)[node := tree h ! ?c]\<rparr>"
  have stop: "secp256k1_sift_down h sc node index = h\<lparr>tree := (tree h)[node := index]\<rparr>"
    if "node < size_heap h div 2 \<and> sc ! (tree h ! ?c) < sc ! index"
    using that by (subst sift_down_unfold) simp
  have leaf: "secp256k1_sift_down h sc node index = h\<lparr>tree := (tree h)[node := index]\<rparr>"
    if "\<not> node < size_heap h div 2"
    using that by (subst sift_down_unfold) simp
  have descend: "secp256k1_sift_down h sc node index = secp256k1_sift_down ?h sc ?c index"
    if "node < size_heap h div 2 \<and> sc ! index \<le> sc ! (tree h ! ?c)"
    using that by (subst sift_down_unfold) simp
  have moved: "tree (secp256k1_sift_down h sc node index) ! node = tree h ! ?c"
    if "node < size_heap h div 2 \<and> sc ! index \<le> sc ! (tree h ! ?c)"
    using that nlen sift_down_untouched[of node ?c ?h sc index] larger_child_greater[of node h sc]
    by (simp add: descend)
  from stop leaf descend moved show ?thesis by blast
qed

text \<open>The three cases of claim C7 at concrete heaps.\<close>

theorem sift_down_level_witness:
  "heap_wf \<lparr>tree = [2, 1, 0], size_heap = 3\<rparr> [4, 5, 9] \<and>
   heap_wf \<lparr>tree = [2, 1, 0], size_heap = 3\<rparr> [4, 5, 5] \<and>
   ((0::nat) < size_heap \<lparr>tree = [2, 1, 0], size_heap = 3\<rparr> div 2 \<and>
      [4, 5, 9::nat] ! (tree \<lparr>tree = [2, 1, 0], size_heap = 3\<rparr> !
          larger_child \<lparr>tree = [2, 1, 0], size_heap = 3\<rparr> [4, 5, 9] 0) < [4, 5, 9::nat] ! 2) \<and>
   secp256k1_sift_down \<lparr>tree = [2, 1, 0], size_heap = 3\<rparr> [4, 5, 9] 0 2 =
     \<lparr>tree = [2, 1, 0], size_heap = 3\<rparr> \<and>
   ((0::nat) < size_heap \<lparr>tree = [2, 1, 0], size_heap = 3\<rparr> div 2 \<and>
      [4, 5, 5::nat] ! 2 \<le> [4, 5, 5::nat] ! (tree \<lparr>tree = [2, 1, 0], size_heap = 3\<rparr> !
          larger_child \<lparr>tree = [2, 1, 0], size_heap = 3\<rparr> [4, 5, 5] 0)) \<and>
   tree (secp256k1_sift_down \<lparr>tree = [2, 1, 0], size_heap = 3\<rparr> [4, 5, 5] 0 2) ! 0 = 1 \<and>
   \<not> (1::nat) < size_heap \<lparr>tree = [2, 1, 0], size_heap = 3\<rparr> div 2 \<and>
   secp256k1_sift_down \<lparr>tree = [2, 1, 0], size_heap = 3\<rparr> [4, 5, 5] 1 2 =
     \<lparr>tree = [2, 2, 0], size_heap = 3\<rparr>"
proof -
  let ?h = "\<lparr>tree = [2, 1, 0], size_heap = 3\<rparr>"
  have wf9: "heap_wf ?h [4, 5, 9]" by code_simp
  have wf5: "heap_wf ?h [4, 5, 5]" by code_simp
  from sift_down_level[OF wf9, of 2 0] sift_down_level[OF wf5, of 2 0]
    sift_down_level[OF wf5, of 2 1] wf9 wf5
  show ?thesis by (auto simp: larger_child_def)
qed

text \<open>
  Claim C7 as stated fails on a tie. The heap holds index 1 below the root, the candidate is
  index 2, and both scalars are 5: the candidate is not smaller than the larger child, yet
  the child moves up to the root and the candidate lands below it.
\<close>

theorem sift_down_tie_counterexample:
  "[0, 5, 5::nat] ! 2 = [0, 5, 5] ! 1 \<and>
   secp256k1_sift_down \<lparr>tree = [2, 1], size_heap = 2\<rparr> [0, 5, 5] 0 2 =
     \<lparr>tree = [1, 2], size_heap = 2\<rparr> \<and>
   secp256k1_sift_down \<lparr>tree = [2, 1], size_heap = 2\<rparr> [0, 5, 5] 0 2 \<noteq>
     \<lparr>tree = [2, 1], size_heap = 2\<rparr>"
  by code_simp

text \<open>
  Claim C2, as amended. The heap invariant holds after \<^verbatim>\<open>secp256k1_heap_initialize\<close>. On a
  heap that satisfies it, it is preserved by \<^verbatim>\<open>secp256k1_sift_down\<close> at the root or at a node
  whose parent's scalar is not smaller than the candidate's, by \<^verbatim>\<open>secp256k1_sift_up\<close> at a
  node none of whose children has a scalar larger than the candidate's (any leaf), by
  \<^verbatim>\<open>secp256k1_sift_floyd\<close> at every node, and by \<^verbatim>\<open>secp256k1_replace\<close> and
  \<^verbatim>\<open>secp256k1_heap_remove\<close> on a non-empty heap.
\<close>

theorem heap_invariant_maintained:
  "(length (tree h0) = SECP256K1_ECMULT_MULTI_MAX_N \<and> n \<le> SECP256K1_ECMULT_MULTI_MAX_N \<and>
      n \<le> length scalars \<and> n \<le> length pt \<longrightarrow>
      (\<exists>h1. secp256k1_heap_initialize h0 scalars pt n = Inr h1 \<and> heap_invariant h1 scalars)) \<and>
   (heap_wf h sc \<and> heap_invariant h sc \<and> index < length sc \<and> node < size_heap h \<longrightarrow>
      (node = 0 \<or> sc ! index \<le> sc ! (tree h ! ((node - 1) div 2)) \<longrightarrow>
         heap_invariant (secp256k1_sift_down h sc node index) sc) \<and>
      ((\<forall>k\<in>{2 * node + 1, 2 * node + 2}. k < size_heap h \<longrightarrow> sc ! (tree h ! k) \<le> sc ! index) \<longrightarrow>
         heap_invariant (secp256k1_sift_up h sc node index) sc) \<and>
      heap_invariant (secp256k1_sift_floyd h sc node index) sc) \<and>
   (heap_wf h sc \<and> heap_invariant h sc \<and> index < length sc \<and> 0 < size_heap h \<longrightarrow>
      (\<exists>result h'. secp256k1_replace h sc index = Inr (result, h') \<and> heap_invariant h' sc) \<and>
      (\<exists>result h'. secp256k1_heap_remove h sc = Inr (result, h') \<and> heap_invariant h' sc))"
proof -
  have init: "\<exists>h1. secp256k1_heap_initialize h0 scalars pt n = Inr h1 \<and> heap_invariant h1 scalars"
    if "length (tree h0) = SECP256K1_ECMULT_MULTI_MAX_N" and "n \<le> SECP256K1_ECMULT_MULTI_MAX_N"
    using heap_initialize_props[OF that, of scalars pt] by blast
  have down: "heap_invariant (secp256k1_sift_down h sc node index) sc"
    if "heap_wf h sc" and "heap_invariant h sc" and "node < size_heap h"
      and "node = 0 \<or> sc ! index \<le> sc ! (tree h ! ((node - 1) div 2))"
    using that by (intro sift_down_inv) (simp_all add: heap_wf_def)
  have up: "heap_invariant (secp256k1_sift_up h sc node index) sc"
    if "heap_wf h sc" and "heap_invariant h sc" and "node < size_heap h"
      and "\<forall>k\<in>{2 * node + 1, 2 * node + 2}. k < size_heap h \<longrightarrow> sc ! (tree h ! k) \<le> sc ! index"
    using that by (intro sift_up_inv) (auto simp: heap_wf_def)
  have floyd: "heap_invariant (secp256k1_sift_floyd h sc node index) sc"
    if "heap_wf h sc" and "heap_invariant h sc" and "node < size_heap h"
    using that by (intro sift_floyd_inv) (simp_all add: heap_wf_def)
  have repl: "\<exists>result h'. secp256k1_replace h sc index = Inr (result, h') \<and> heap_invariant h' sc"
    if "heap_wf h sc" and "heap_invariant h sc" and "0 < size_heap h"
    using that replace_props[of h sc index] by (auto simp: heap_wf_def)
  have rem: "\<exists>result h'. secp256k1_heap_remove h sc = Inr (result, h') \<and> heap_invariant h' sc"
    if "heap_wf h sc" and "heap_invariant h sc" and "0 < size_heap h"
    using that heap_remove_props[of h sc] by (auto simp: heap_wf_def)
  from init down up floyd repl rem show ?thesis by blast
qed

text \<open>Claim C2 at a concrete input of the build and a concrete heap of three entries.\<close>

theorem heap_invariant_maintained_witness:
  "(length (tree \<lparr>tree = replicate 256 0, size_heap = 0\<rparr>) = SECP256K1_ECMULT_MULTI_MAX_N \<and>
    (3::nat) \<le> SECP256K1_ECMULT_MULTI_MAX_N \<and> 3 \<le> length [2, 7, 5::nat] \<and>
    3 \<le> length [1, 1, 1::int]) \<and>
   (\<exists>h1. secp256k1_heap_initialize \<lparr>tree = replicate 256 0, size_heap = 0\<rparr>
            [2, 7, 5] [1, 1, 1::int] 3 = Inr h1 \<and> heap_invariant h1 [2, 7, 5]) \<and>
   (heap_wf \<lparr>tree = [0, 1, 2], size_heap = 3\<rparr> [5, 3, 2, 4] \<and>
    heap_invariant \<lparr>tree = [0, 1, 2], size_heap = 3\<rparr> [5, 3, 2, 4] \<and>
    (3::nat) < length [5, 3, 2, 4::nat] \<and> (0::nat) < size_heap \<lparr>tree = [0, 1, 2], size_heap = 3\<rparr>) \<and>
   heap_invariant (secp256k1_sift_down \<lparr>tree = [0, 1, 2], size_heap = 3\<rparr> [5, 3, 2, 4] 0 3)
     [5, 3, 2, 4] \<and>
   size_heap \<lparr>tree = [0, 1, 2], size_heap = 3\<rparr> \<le> 2 * 2 + 1 \<and>
   heap_invariant (secp256k1_sift_up \<lparr>tree = [0, 1, 2], size_heap = 3\<rparr> [5, 3, 2, 4] 2 3)
     [5, 3, 2, 4] \<and>
   heap_invariant (secp256k1_sift_floyd \<lparr>tree = [0, 1, 2], size_heap = 3\<rparr> [5, 3, 2, 4] 0 3)
     [5, 3, 2, 4] \<and>
   (\<exists>result h'. secp256k1_replace \<lparr>tree = [0, 1, 2], size_heap = 3\<rparr> [5, 3, 2, 4] 3 =
       Inr (result, h') \<and> heap_invariant h' [5, 3, 2, 4]) \<and>
   (\<exists>result h'. secp256k1_heap_remove \<lparr>tree = [0, 1, 2], size_heap = 3\<rparr> [5, 3, 2, 4] =
       Inr (result, h') \<and> heap_invariant h' [5, 3, 2, 4])"
proof -
  have wf: "heap_wf \<lparr>tree = [0, 1, 2], size_heap = 3\<rparr> [5, 3, 2, 4]"
    by code_simp
  have inv: "heap_invariant \<lparr>tree = [0, 1, 2], size_heap = 3\<rparr> [5, 3, 2, 4]"
    by code_simp
  have mx: "SECP256K1_ECMULT_MULTI_MAX_N = 256"
    by (simp add: SECP256K1_ECMULT_MULTI_MAX_N_def)
  show ?thesis
    using wf inv mx
      heap_invariant_maintained[of "\<lparr>tree = replicate 256 0, size_heap = 0\<rparr>" 3 "[2, 7, 5]"
        "[1, 1, 1::int]" "\<lparr>tree = [0, 1, 2], size_heap = 3\<rparr>" "[5, 3, 2, 4]" 3 0]
      heap_invariant_maintained[of "\<lparr>tree = replicate 256 0, size_heap = 0\<rparr>" 3 "[2, 7, 5]"
        "[1, 1, 1::int]" "\<lparr>tree = [0, 1, 2], size_heap = 3\<rparr>" "[5, 3, 2, 4]" 3 2]
    by simp
qed

text \<open>
  Claim C2 as stated fails for \<^verbatim>\<open>secp256k1_sift_down\<close> away from the root: on the heap of the
  indices 0, 1, 2 with the scalars 5, 3, 2, a candidate of scalar 10 sifted down at node 1 stays
  there, under a root of scalar 5.
\<close>

theorem heap_invariant_sift_down_counterexample:
  "heap_invariant \<lparr>tree = [0, 1, 2], size_heap = 3\<rparr> [5, 3, 2, 10] \<and>
   \<not> heap_invariant (secp256k1_sift_down \<lparr>tree = [0, 1, 2], size_heap = 3\<rparr> [5, 3, 2, 10] 1 3)
        [5, 3, 2, 10]"
  by code_simp

text \<open>
  Claim C5, as amended. On a heap that satisfies the heap invariant, \<^verbatim>\<open>secp256k1_sift_floyd\<close>
  applied at the root (the only node \<^verbatim>\<open>secp256k1_replace\<close> applies it to), or at a node whose
  parent's scalar is not smaller than the candidate's, returns exactly the heap that
  \<^verbatim>\<open>secp256k1_sift_down\<close> returns at the same node with the same candidate.
\<close>

theorem sift_floyd_refines_sift_down:
  "heap_wf h sc \<Longrightarrow> heap_invariant h sc \<Longrightarrow> index < length sc \<Longrightarrow>
   node = 0 \<or> sc ! index \<le> sc ! (tree h ! ((node - 1) div 2)) \<Longrightarrow>
   secp256k1_sift_floyd h sc node index = secp256k1_sift_down h sc node index"
proof -
  assume wf: "heap_wf h sc" and inv: "heap_invariant h sc"
    and G: "node = 0 \<or> sc ! index \<le> sc ! (tree h ! ((node - 1) div 2))"
  have len: "size_heap h \<le> length (tree h)" using wf by (simp add: heap_wf_def)
  show ?thesis
    using len
  proof (rule sift_floyd_eq_sift_down)
    fix j k
    assume "k < size_heap h" "k = 2 * j + 1 \<or> k = 2 * j + 2"
    then show "sc ! (tree h ! k) \<le> sc ! (tree h ! j)" by (rule heap_below_pairs[OF inv])
  qed (rule G)
qed

text \<open>Claim C5 at the root of a concrete heap.\<close>

theorem sift_floyd_refines_sift_down_witness:
  "heap_wf \<lparr>tree = [0, 1, 2], size_heap = 3\<rparr> [5, 3, 2, 4] \<and>
   heap_invariant \<lparr>tree = [0, 1, 2], size_heap = 3\<rparr> [5, 3, 2, 4] \<and>
   (3::nat) < length [5, 3, 2, 4::nat] \<and>
   secp256k1_sift_floyd \<lparr>tree = [0, 1, 2], size_heap = 3\<rparr> [5, 3, 2, 4] 0 3 =
   secp256k1_sift_down \<lparr>tree = [0, 1, 2], size_heap = 3\<rparr> [5, 3, 2, 4] 0 3"
proof -
  have wf: "heap_wf \<lparr>tree = [0, 1, 2], size_heap = 3\<rparr> [5, 3, 2, 4]"
    by code_simp
  have inv: "heap_invariant \<lparr>tree = [0, 1, 2], size_heap = 3\<rparr> [5, 3, 2, 4]"
    by code_simp
  show ?thesis
    using wf inv sift_floyd_refines_sift_down[OF wf inv, of 3 0] by simp
qed

text \<open>
  Claim C5 as stated fails away from the root: on the heap of the indices 0, 1, 2 with the
  scalars 5, 3, 2, which satisfies the invariant, a candidate of scalar 10 applied at node 1 is
  carried up to the root by \<^verbatim>\<open>secp256k1_sift_floyd\<close> and stays at node 1 under
  \<^verbatim>\<open>secp256k1_sift_down\<close>.
\<close>

theorem sift_floyd_inner_node_counterexample:
  "heap_invariant \<lparr>tree = [0, 1, 2], size_heap = 3\<rparr> [5, 3, 2, 10] \<and>
   tree (secp256k1_sift_floyd \<lparr>tree = [0, 1, 2], size_heap = 3\<rparr> [5, 3, 2, 10] 1 3) = [3, 0, 2] \<and>
   tree (secp256k1_sift_down \<lparr>tree = [0, 1, 2], size_heap = 3\<rparr> [5, 3, 2, 10] 1 3) = [0, 3, 2]"
  by code_simp

text \<open>
  Claim C8. On a non-empty heap \<^verbatim>\<open>secp256k1_heap_remove\<close> returns the old root's index and
  a heap one entry smaller: untouched if it became empty, otherwise the result of sifting the
  last entry down from the root, which restores the invariant; \<^verbatim>\<open>secp256k1_replace\<close>
  returns the old root's index and a heap of the same size.
\<close>

theorem remove_and_replace_root:
  "heap_wf h sc \<Longrightarrow> index < length sc \<Longrightarrow> 0 < size_heap h \<Longrightarrow>
   (\<exists>h'. secp256k1_heap_remove h sc = Inr (tree h ! 0, h') \<and>
          size_heap h' = size_heap h - 1 \<and>
          (size_heap h = 1 \<longrightarrow> h' = h\<lparr>size_heap := 0\<rparr>) \<and>
          (1 < size_heap h \<longrightarrow>
             h' = secp256k1_sift_down (h\<lparr>size_heap := size_heap h - 1\<rparr>) sc 0
                    (tree h ! (size_heap h - 1))) \<and>
          (heap_invariant h sc \<longrightarrow> heap_invariant h' sc)) \<and>
   (\<exists>h'. secp256k1_replace h sc index = Inr (tree h ! 0, h') \<and>
          h' = secp256k1_sift_floyd h sc 0 index \<and> size_heap h' = size_heap h)"
proof -
  assume wf: "heap_wf h sc" and pos: "0 < size_heap h"
  have len: "size_heap h \<le> length (tree h)" using wf by (simp add: heap_wf_def)
  have repl: "\<exists>h'. secp256k1_replace h sc index = Inr (tree h ! 0, h') \<and>
          h' = secp256k1_sift_floyd h sc 0 index \<and> size_heap h' = size_heap h"
    using pos by (simp add: secp256k1_replace_def)
  have rem: "\<exists>h'. secp256k1_heap_remove h sc = Inr (tree h ! 0, h') \<and>
          size_heap h' = size_heap h - 1 \<and>
          (size_heap h = 1 \<longrightarrow> h' = h\<lparr>size_heap := 0\<rparr>) \<and>
          (1 < size_heap h \<longrightarrow>
             h' = secp256k1_sift_down (h\<lparr>size_heap := size_heap h - 1\<rparr>) sc 0
                    (tree h ! (size_heap h - 1))) \<and>
          (heap_invariant h sc \<longrightarrow> heap_invariant h' sc)"
  proof (cases "heap_invariant h sc")
    case True
    then obtain h' where "secp256k1_heap_remove h sc = Inr (tree h ! 0, h')" "heap_invariant h' sc"
      using heap_remove_props[of h sc] pos len by blast
    then show ?thesis
      using pos by (auto simp: secp256k1_heap_remove_def Let_def split: if_splits)
  next
    case False
    then show ?thesis
      using pos by (auto simp: secp256k1_heap_remove_def Let_def)
  qed
  from repl rem show ?thesis by blast
qed

text \<open>Claim C8 at a concrete heap of three entries.\<close>

theorem remove_and_replace_root_witness:
  "heap_wf \<lparr>tree = [0, 1, 2], size_heap = 3\<rparr> [5, 3, 2, 4] \<and>
   (3::nat) < length [5, 3, 2, 4::nat] \<and>
   (0::nat) < size_heap \<lparr>tree = [0, 1, 2], size_heap = 3\<rparr> \<and>
   (\<exists>h'. secp256k1_heap_remove \<lparr>tree = [0, 1, 2], size_heap = 3\<rparr> [5, 3, 2, 4] = Inr (0, h') \<and>
          size_heap h' = 2) \<and>
   (\<exists>h'. secp256k1_replace \<lparr>tree = [0, 1, 2], size_heap = 3\<rparr> [5, 3, 2, 4] 3 = Inr (0, h') \<and>
          size_heap h' = 3)"
proof -
  have wf: "heap_wf \<lparr>tree = [0, 1, 2], size_heap = 3\<rparr> [5, 3, 2, 4]"
    by code_simp
  from remove_and_replace_root[OF wf, of 3] wf show ?thesis by auto
qed

section \<open>Properties of the driver\<close>

lemma scalar_mult_add: "scalar_mult (a + b) p = scalar_mult a p + scalar_mult b p"
  by (induction a) (simp_all add: add.assoc)

lemma scalar_mult_zero_right [simp]: "scalar_mult k 0 = 0"
  by (induction k) simp_all

lemma scalar_mult_distrib: "scalar_mult k (p + q) = scalar_mult k p + scalar_mult k q"
  by (induction k) (simp_all add: ac_simps)

lemma scalar_mult_mult: "scalar_mult (a * b) p = scalar_mult a (scalar_mult b p)"
  by (induction a) (simp_all add: scalar_mult_add)

lemma scalar_mult_double: "scalar_mult k (p + p) = scalar_mult (2 * k) p"
  by (induction k) (simp_all add: ac_simps)

lemma scalar_mult_one [simp]: "scalar_mult (Suc 0) p = p"
  by simp

declare double_and_add.simps [simp del]

lemma double_and_add_eq: "double_and_add k p = scalar_mult k p"
proof (induction k arbitrary: p rule: less_induct)
  case (less k)
  show ?case
  proof (cases "k = 0")
    case True
    then show ?thesis by (subst double_and_add.simps) simp
  next
    case False
    then have IH: "double_and_add (k div 2) (p + p) = scalar_mult (2 * (k div 2)) p"
      using less.IH[of "k div 2" "p + p"] by (simp add: scalar_mult_double)
    show ?thesis
    proof (cases "odd k")
      case True
      then have "Suc (2 * (k div 2)) = k" by presburger
      then have "p + scalar_mult (2 * (k div 2)) p = scalar_mult k p"
        by (metis scalar_mult.simps(2))
      with True False IH show ?thesis by (subst double_and_add.simps) simp
    next
      case even: False
      then have "2 * (k div 2) = k" by presburger
      then have "scalar_mult (2 * (k div 2)) p = scalar_mult k p" by (simp only:)
      with even False IH show ?thesis by (subst double_and_add.simps) simp
    qed
  qed
qed

lemma naive_reference_eq:
  "naive_reference scalars pt n = (\<Sum>i<n. scalar_mult (scalars ! i) (pt ! i))"
  unfolding naive_reference_def double_and_add_eq
  by (simp add: interv_sum_list_conv_sum_set_nat atLeast0LessThan)

lemma reduce_identity:
  assumes "0 < m"
  shows "scalar_mult (a mod m) x + scalar_mult m (scalar_mult (a div m) x + y) =
         scalar_mult a x + scalar_mult m (y::'p::comm_monoid_add)"
proof -
  have "scalar_mult a x = scalar_mult (a mod m + m * (a div m)) x" by simp
  also have "\<dots> = scalar_mult (a mod m) x + scalar_mult m (scalar_mult (a div m) x)"
    by (simp only: scalar_mult_add scalar_mult_mult)
  finally show ?thesis by (simp add: scalar_mult_distrib add.assoc)
qed

lemma do_loop:
  assumes "first_st st \<noteq> second" and "first_st st < length (sc_st st)"
    and "second < length (pt_st st)"
    and "0 < sc_st st ! second" and "sc_st st ! second \<le> sc_st st ! first_st st"
  shows "secp256k1_ecmult_multi_do st second =
         Some (Inr (st\<lparr>pt_st := (pt_st st)[second :=
                        scalar_mult (sc_st st ! first_st st div sc_st st ! second)
                          (pt_st st ! first_st st) + pt_st st ! second],
                      sc_st := (sc_st st)[first_st st :=
                        sc_st st ! first_st st mod sc_st st ! second]\<rparr>))"
  using assms
proof (induction "sc_st st ! first_st st" arbitrary: st rule: less_induct)
  case less
  let ?f = "first_st st"
  let ?a = "sc_st st ! ?f" and ?m = "sc_st st ! second"
  let ?x = "pt_st st ! ?f" and ?y = "pt_st st ! second"
  let ?st1 = "st\<lparr>pt_st := (pt_st st)[second := ?x + ?y]\<rparr>"
  let ?st2 = "?st1\<lparr>sc_st := (sc_st st)[?f := ?a - ?m]\<rparr>"
  note ne = less.prems(1) and flen = less.prems(2) and slen = less.prems(3)
    and mpos = less.prems(4) and le = less.prems(5)
  have step: "secp256k1_ecmult_multi_do st second =
        (if ?m \<le> ?a - ?m then secp256k1_ecmult_multi_do ?st2 second else Some (Inr ?st2))"
    using le flen ne
    by (subst secp256k1_ecmult_multi_do.simps)
       (simp add: secp256k1_scalar_numsub_def secp256k1_gej_add_var_def Let_def)
  show ?case
  proof (cases "?m \<le> ?a - ?m")
    case False
    then have "?a div ?m = 1" "?a mod ?m = ?a - ?m"
      using le mpos by (simp_all add: le_div_geq le_mod_geq)
    with False step show ?thesis by simp
  next
    case True
    have dm: "?a div ?m = Suc ((?a - ?m) div ?m)" "?a mod ?m = (?a - ?m) mod ?m"
      using le mpos by (simp_all add: le_div_geq le_mod_geq)
    have "secp256k1_ecmult_multi_do ?st2 second =
         Some (Inr (?st2\<lparr>pt_st := (pt_st ?st2)[second :=
                        scalar_mult (sc_st ?st2 ! first_st ?st2 div sc_st ?st2 ! second)
                          (pt_st ?st2 ! first_st ?st2) + pt_st ?st2 ! second],
                      sc_st := (sc_st ?st2)[first_st ?st2 :=
                        sc_st ?st2 ! first_st ?st2 mod sc_st ?st2 ! second]\<rparr>))"
      using ne flen slen mpos le True by (intro less.hyps) simp_all
    also have "\<dots> = Some (Inr (st\<lparr>pt_st := (pt_st st)[second :=
                        scalar_mult (?a div ?m) ?x + ?y],
                      sc_st := (sc_st st)[?f := ?a mod ?m]\<rparr>))"
      using ne flen slen by (simp add: dm ac_simps)
    finally show ?thesis using True step by simp
  qed
qed

lemma ladder_loop:
  assumes "first_st st < length (sc_st st)" and "first_st st < length (pt_st st)"
    and "0 < sc_st st ! first_st st"
  shows "\<exists>st'. secp256k1_ecmult_multi_ladder r st =
            Some (r + scalar_mult (sc_st st ! first_st st) (pt_st st ! first_st st), st') \<and>
           sc_st st' ! first_st st' = 0"
  using assms
proof (induction "sc_st st ! first_st st" arbitrary: st r rule: less_induct)
  case less
  let ?f = "first_st st"
  let ?s = "sc_st st ! ?f" and ?p = "pt_st st ! ?f"
  let ?st1 = "st\<lparr>sc_st := (sc_st st)[?f := ?s div 2]\<rparr>"
  let ?st2 = "?st1\<lparr>pt_st := (pt_st st)[?f := ?p + ?p]\<rparr>"
  note flen = less.prems(1) and plen = less.prems(2) and pos = less.prems(3)
  have rec: "\<exists>st'. secp256k1_ecmult_multi_ladder r' ?st2 =
            Some (r' + scalar_mult (2 * (?s div 2)) ?p, st') \<and>
            sc_st st' ! first_st st' = 0" if "0 < ?s div 2" for r'
  proof -
    have "\<exists>st'. secp256k1_ecmult_multi_ladder r' ?st2 =
            Some (r' + scalar_mult (sc_st ?st2 ! first_st ?st2) (pt_st ?st2 ! first_st ?st2), st') \<and>
            sc_st st' ! first_st st' = 0"
      using flen plen pos that by (intro less.hyps) simp_all
    then show ?thesis using flen plen by (simp add: scalar_mult_double)
  qed
  show ?case
  proof (cases "odd ?s")
    case True
    then have s: "Suc (2 * (?s div 2)) = ?s" by presburger
    have sm: "scalar_mult ?s ?p = ?p + scalar_mult (2 * (?s div 2)) ?p"
      by (metis s scalar_mult.simps(2))
    have step: "secp256k1_ecmult_multi_ladder r st =
          (if ?s div 2 = 0 then Some (r + ?p, ?st1)
           else secp256k1_ecmult_multi_ladder (r + ?p) ?st2)"
      using True flen plen
      by (subst secp256k1_ecmult_multi_ladder.simps)
         (simp add: secp256k1_scalar_shr_int_def secp256k1_gej_add_var_def
            secp256k1_gej_double_var_def secp256k1_scalar_is_zero_def Let_def odd_iff_mod_2_eq_one)
    show ?thesis
    proof (cases "?s div 2 = 0")
      case z: True
      with sm step flen show ?thesis by simp
    next
      case False
      with rec[of "r + ?p"] sm step show ?thesis by (simp add: add.assoc)
    qed
  next
    case False
    then have s: "2 * (?s div 2) = ?s" by presburger
    then have pos2: "0 < ?s div 2" using pos by linarith
    have sm: "scalar_mult ?s ?p = scalar_mult (2 * (?s div 2)) ?p" by (simp only: s)
    have step: "secp256k1_ecmult_multi_ladder r st = secp256k1_ecmult_multi_ladder r ?st2"
      using False flen plen
      by (subst secp256k1_ecmult_multi_ladder.simps)
         (simp add: secp256k1_scalar_shr_int_def secp256k1_gej_add_var_def
            secp256k1_gej_double_var_def secp256k1_scalar_is_zero_def Let_def even_iff_mod_2_eq_zero)
    from rec[OF pos2, of r] sm step show ?thesis by simp
  qed
qed

lemma heap_invariant_cong:
  assumes "\<And>k. k < size_heap h \<Longrightarrow> sc' ! (tree h ! k) = sc ! (tree h ! k)"
  shows "heap_invariant h sc' = heap_invariant h sc"
proof -
  have "sc' ! (tree h ! node) = sc ! (tree h ! node) \<and>
        sc' ! (tree h ! ((node - 1) div 2)) = sc ! (tree h ! ((node - 1) div 2))"
    if "node \<in> {1..<size_heap h}" for node
    using that by (intro conjI assms) auto
  then show ?thesis unfolding heap_invariant_def by simp
qed

lemma heap_indices_root:
  "0 < size_heap h \<Longrightarrow> size_heap h \<le> length (tree h) \<Longrightarrow> tree h ! 0 \<in> set (heap_indices h)"
  unfolding heap_indices_def by (cases "tree h") (auto simp: take_Suc gr0_conv_Suc)

lemma heap_indices_nth:
  "i \<in> set (heap_indices h) \<Longrightarrow> \<exists>k<size_heap h. i = tree h ! k"
  unfolding heap_indices_def by (auto simp: in_set_conv_nth)

lemma heap_root_max_index:
  assumes "heap_invariant h sc" and "i \<in> set (heap_indices h)"
  shows "sc ! i \<le> sc ! (tree h ! 0)"
  using heap_indices_nth[OF assms(2)] heap_root_max[OF assms(1)] by auto

lemma round_result:
  fixes st :: "'p::comm_monoid_add ecmult_multi_state"
  assumes inv: "driver_inv n st" and pos: "0 < size_heap (heap_st st)"
    and f_def: "f = first_st st" and h_def: "h = heap_st st"
    and s_def: "s = tree h ! 0"
    and a_def: "a = sc_st st ! f" and m_def: "m = sc_st st ! s"
    and sc1_def: "sc1 = (sc_st st)[f := a mod m]"
    and pt1_def: "pt1 = (pt_st st)[s := scalar_mult (a div m) (pt_st st ! f) + pt_st st ! s]"
  shows "f \<noteq> s \<and> s \<in> set (heap_indices h) \<and> 0 < m \<and> m \<le> a \<and>
         secp256k1_ecmult_multi_do st s = Some (Inr (st\<lparr>pt_st := pt1, sc_st := sc1\<rparr>)) \<and>
         (\<exists>h'. secp256k1_ecmult_multi_round st =
                 Some (Inr (st\<lparr>pt_st := pt1, sc_st := sc1, heap_st := h', first_st := s\<rparr>)) \<and>
               heap_invariant h' sc1 \<and> length (tree h') = length (tree h) \<and>
               (a mod m = 0 \<longrightarrow> secp256k1_heap_remove h sc1 = Inr (s, h') \<and>
                   size_heap h' = size_heap h - 1 \<and>
                   mset (heap_indices h') = mset (heap_indices h) - {#s#}) \<and>
               (a mod m \<noteq> 0 \<longrightarrow> secp256k1_replace h sc1 f = Inr (s, h') \<and>
                   size_heap h' = size_heap h \<and>
                   mset (heap_indices h') = add_mset f (mset (heap_indices h) - {#s#})))"
proof -
  have len: "size_heap h \<le> length (tree h)" and n_sc: "n \<le> length (sc_st st)"
    and n_pt: "n \<le> length (pt_st st)" and dist: "distinct (f # heap_indices h)"
    and hinv: "heap_invariant h (sc_st st)"
    and live: "\<And>i. i \<in> set (f # heap_indices h) \<Longrightarrow> i < n \<and> sc_st st ! i \<noteq> 0"
    and top: "\<And>i. i \<in> set (heap_indices h) \<Longrightarrow> sc_st st ! i \<le> a"
    using inv unfolding driver_inv_def held_def f_def h_def a_def by auto
  have s_in: "s \<in> set (heap_indices h)"
    unfolding s_def using pos len by (intro heap_indices_root) (simp_all add: h_def)
  have fs: "f \<noteq> s" using dist s_in by auto
  have s_n: "s < n" and m_pos: "0 < m" using live[of s] s_in by (simp_all add: m_def)
  have f_n: "f < n" using live[of f] by simp
  have m_le: "m \<le> a" using top[OF s_in] by (simp add: m_def)
  have do_eq: "secp256k1_ecmult_multi_do st s = Some (Inr (st\<lparr>pt_st := pt1, sc_st := sc1\<rparr>))"
    unfolding pt1_def sc1_def a_def m_def f_def
    using fs f_n s_n n_sc n_pt m_pos m_le
    by (intro do_loop) (simp_all add: f_def a_def m_def)
  have same: "sc1 ! (tree h ! k) = sc_st st ! (tree h ! k)" if "k < size_heap h" for k
  proof -
    have "tree h ! k \<in> set (heap_indices h)"
      using that len unfolding heap_indices_def by (auto simp: in_set_conv_nth)
    with dist have "tree h ! k \<noteq> f" by auto
    then show ?thesis by (simp add: sc1_def)
  qed
  have hinv1: "heap_invariant h sc1"
    using hinv heap_invariant_cong[of h sc1 "sc_st st"] same by simp
  have pos_h: "0 < size_heap h" using pos by (simp add: h_def)
  have zero_iff: "secp256k1_scalar_is_zero (sc1 ! f) = (a mod m = 0)"
    using f_n n_sc by (simp add: secp256k1_scalar_is_zero_def sc1_def)
  have round_eq: "secp256k1_ecmult_multi_round st =
      (if a mod m = 0
       then (case secp256k1_heap_remove h sc1 of
               Inl e \<Rightarrow> Some (Inl e)
             | Inr (result, h') \<Rightarrow>
                 Some (Inr (st\<lparr>pt_st := pt1, sc_st := sc1, heap_st := h', first_st := result\<rparr>)))
       else (case secp256k1_replace h sc1 f of
               Inl e \<Rightarrow> Some (Inl e)
             | Inr (result, h') \<Rightarrow>
                 Some (Inr (st\<lparr>pt_st := pt1, sc_st := sc1, heap_st := h', first_st := result\<rparr>))))"
    unfolding secp256k1_ecmult_multi_round_def
    using do_eq zero_iff by (simp add: s_def h_def f_def Let_def)
  have "\<exists>h'. secp256k1_ecmult_multi_round st =
                 Some (Inr (st\<lparr>pt_st := pt1, sc_st := sc1, heap_st := h', first_st := s\<rparr>)) \<and>
               heap_invariant h' sc1 \<and> length (tree h') = length (tree h) \<and>
               (a mod m = 0 \<longrightarrow> secp256k1_heap_remove h sc1 = Inr (s, h') \<and>
                   size_heap h' = size_heap h - 1 \<and>
                   mset (heap_indices h') = mset (heap_indices h) - {#s#}) \<and>
               (a mod m \<noteq> 0 \<longrightarrow> secp256k1_replace h sc1 f = Inr (s, h') \<and>
                   size_heap h' = size_heap h \<and>
                   mset (heap_indices h') = add_mset f (mset (heap_indices h) - {#s#}))"
  proof (cases "a mod m = 0")
    case True
    from heap_remove_props[OF len pos_h hinv1] obtain h' where
      "secp256k1_heap_remove h sc1 = Inr (s, h')" "heap_invariant h' sc1"
      "size_heap h' = size_heap h - 1" "length (tree h') = length (tree h)"
      "mset (heap_indices h') = mset (heap_indices h) - {#s#}"
      unfolding s_def by blast
    with True round_eq show ?thesis by auto
  next
    case False
    from replace_props[OF len pos_h hinv1, of f] obtain h' where
      "secp256k1_replace h sc1 f = Inr (s, h')" "heap_invariant h' sc1"
      "size_heap h' = size_heap h" "length (tree h') = length (tree h)"
      "mset (heap_indices h') = add_mset f (mset (heap_indices h) - {#s#})"
      unfolding s_def by blast
    with False round_eq show ?thesis by auto
  qed
  with fs s_in m_pos m_le do_eq show ?thesis by blast
qed


lemma sum_two_update:
  fixes g g' :: "nat \<Rightarrow> 'p::comm_monoid_add"
  assumes "f \<noteq> s" and "f < n" and "s < n"
    and "\<And>i. i < n \<Longrightarrow> i \<noteq> f \<Longrightarrow> i \<noteq> s \<Longrightarrow> g' i = g i"
    and "g' f + g' s = g f + g s"
  shows "sum g' {..<n} = sum g {..<n}"
proof -
  let ?R = "{..<n} - {f} - {s}"
  have split: "sum k {..<n} = k f + (k s + sum k ?R)" for k :: "nat \<Rightarrow> 'p"
  proof -
    have "sum k {..<n} = k f + sum k ({..<n} - {f})"
      using assms(2) by (intro sum.remove) simp_all
    also have "sum k ({..<n} - {f}) = k s + sum k ?R"
      using assms(1,3) by (intro sum.remove) simp_all
    finally show ?thesis .
  qed
  have "sum g' ?R = sum g ?R"
    using assms(4) by (intro sum.cong) auto
  then show ?thesis
    using assms(5) by (simp add: split add.assoc[symmetric])
qed

lemma round_props:
  fixes st :: "'p::comm_monoid_add ecmult_multi_state"
  assumes inv: "driver_inv n st" and pos: "0 < size_heap (heap_st st)"
  shows "\<exists>st'. secp256k1_ecmult_multi_round st = Some (Inr st') \<and>
           driver_inv n st' \<and> terms_sum n st' = terms_sum n st \<and>
           first_st st' = tree (heap_st st) ! 0 \<and>
           (\<forall>i. i \<noteq> first_st st \<longrightarrow> sc_st st' ! i = sc_st st ! i) \<and>
           set (held st') \<subseteq> set (held st) \<and>
           (size_heap (heap_st st') < size_heap (heap_st st) \<or>
            size_heap (heap_st st') = size_heap (heap_st st) \<and>
            sc_st st' ! first_st st' < sc_st st ! first_st st) \<and>
           (sc_st st' ! first_st st \<noteq> 0 \<longrightarrow>
              secp256k1_replace (heap_st st) (sc_st st') (first_st st) =
                Inr (first_st st', heap_st st') \<and>
              mset (held st') = mset (held st))"
proof -
  define f where "f = first_st st"
  define h where "h = heap_st st"
  define s where "s = tree h ! 0"
  define a where "a = sc_st st ! f"
  define m where "m = sc_st st ! s"
  define sc1 where "sc1 = (sc_st st)[f := a mod m]"
  define pt1 where "pt1 = (pt_st st)[s := scalar_mult (a div m) (pt_st st ! f) + pt_st st ! s]"
  note defs = f_def h_def s_def a_def m_def sc1_def pt1_def
  obtain h' where fs: "f \<noteq> s" and s_in: "s \<in> set (heap_indices h)" and m_pos: "0 < m"
    and m_le: "m \<le> a"
    and round: "secp256k1_ecmult_multi_round st =
           Some (Inr (st\<lparr>pt_st := pt1, sc_st := sc1, heap_st := h', first_st := s\<rparr>))"
    and hinv': "heap_invariant h' sc1" and len': "length (tree h') = length (tree h)"
    and rem': "a mod m = 0 \<longrightarrow> secp256k1_heap_remove h sc1 = Inr (s, h') \<and>
                   size_heap h' = size_heap h - 1 \<and>
                   mset (heap_indices h') = mset (heap_indices h) - {#s#}"
    and rep': "a mod m \<noteq> 0 \<longrightarrow> secp256k1_replace h sc1 f = Inr (s, h') \<and>
                   size_heap h' = size_heap h \<and>
                   mset (heap_indices h') = add_mset f (mset (heap_indices h) - {#s#})"
    using round_result[OF inv pos defs] by (elim conjE exE) (rule that; assumption)
  note rem = rem'[rule_format] and rep = rep'[rule_format]
  let ?st' = "st\<lparr>pt_st := pt1, sc_st := sc1, heap_st := h', first_st := s\<rparr>"
  have len: "size_heap h \<le> length (tree h)" and n_sc: "n \<le> length (sc_st st)"
    and n_pt: "n \<le> length (pt_st st)" and dist: "distinct (f # heap_indices h)"
    and hinv: "heap_invariant h (sc_st st)"
    and live: "\<And>i. i \<in> set (f # heap_indices h) \<Longrightarrow> i < n \<and> sc_st st ! i \<noteq> 0"
    and top: "\<And>i. i \<in> set (heap_indices h) \<Longrightarrow> sc_st st ! i \<le> a"
    using inv unfolding driver_inv_def held_def f_def h_def a_def by auto
  have "\<forall>i\<in>{0..<n}. i \<notin> set (held st) \<longrightarrow> sc_st st ! i = 0 \<or> pt_st st ! i = 0"
    using inv unfolding driver_inv_def by blast
  then have dead: "sc_st st ! i = 0 \<or> pt_st st ! i = 0"
    if "i < n" "i \<notin> set (f # heap_indices h)" for i
    using that by (simp add: held_def f_def h_def)
  have f_n: "f < n" and s_n: "s < n" using live[of f] live[of s] s_in by simp_all
  have pos_h: "0 < size_heap h" using pos by (simp add: h_def)
  have size': "size_heap h' \<le> size_heap h"
    using rem rep by (cases "a mod m = 0") simp_all
  have ms': "mset (s # heap_indices h') =
               (if a mod m = 0 then mset (heap_indices h) else mset (f # heap_indices h))"
    using rem rep s_in by (cases "a mod m = 0") simp_all
  have set': "set (s # heap_indices h') =
               (if a mod m = 0 then set (heap_indices h) else set (f # heap_indices h))"
    using ms' by (metis (full_types) mset_eq_setD)
  have dist': "distinct (s # heap_indices h')"
  proof (cases "a mod m = 0")
    case True
    then have "mset (s # heap_indices h') = mset (heap_indices h)" using ms' by simp
    with dist show ?thesis by (metis distinct.simps(2) mset_eq_imp_distinct_iff)
  next
    case False
    then have "mset (s # heap_indices h') = mset (f # heap_indices h)" using ms' by simp
    with dist show ?thesis by (metis mset_eq_imp_distinct_iff)
  qed
  have sub: "set (s # heap_indices h') \<subseteq> set (f # heap_indices h)"
    using set' by (auto split: if_splits)
  have sc1_other: "sc1 ! i = sc_st st ! i" if "i \<noteq> f" for i
    using that by (simp add: sc1_def)
  have sc1_f: "sc1 ! f = a mod m" using f_n n_sc by (simp add: sc1_def)
  have root: "sc_st st ! i \<le> m" if "i \<in> set (heap_indices h)" for i
    using heap_root_max_index[OF hinv that] by (simp add: m_def s_def)
  have mod_less: "a mod m < m" using m_pos by simp
  have live': "i < n \<and> sc1 ! i \<noteq> 0" if "i \<in> set (s # heap_indices h')" for i
  proof (cases "i = f")
    case True
    with that set' have "a mod m \<noteq> 0" using dist by (auto split: if_splits)
    with True f_n sc1_f show ?thesis by simp
  next
    case False
    with that sub live[of i] sc1_other[of i] show ?thesis by auto
  qed
  have top': "sc1 ! i \<le> sc1 ! s" if "i \<in> set (heap_indices h')" for i
  proof (cases "i = f")
    case True
    with mod_less sc1_f sc1_other[of s] fs show ?thesis by (simp add: m_def)
  next
    case False
    with that sub have "i \<in> set (heap_indices h)" by auto
    from root[OF this] False sc1_other[of i] sc1_other[of s] fs show ?thesis
      by (simp add: m_def)
  qed
  have dead': "sc1 ! i = 0 \<or> pt1 ! i = 0" if "i < n" "i \<notin> set (s # heap_indices h')" for i
  proof (cases "i = f")
    case True
    with that set' have "a mod m = 0" by (auto split: if_splits)
    with True sc1_f show ?thesis by simp
  next
    case False
    with that set' have out: "i \<notin> set (f # heap_indices h)" by (auto split: if_splits)
    then have "i \<noteq> s" using s_in by auto
    then have "pt1 ! i = pt_st st ! i" by (simp add: pt1_def)
    with dead[OF that(1) out] sc1_other[OF False] show ?thesis by simp
  qed
  have inv': "driver_inv n ?st'"
    unfolding driver_inv_def held_def
    using n_sc n_pt len len' size' dist' live' hinv' top' dead'
    by (simp add: sc1_def pt1_def)
  have "(\<Sum>i<n. scalar_mult (sc1 ! i) (pt1 ! i)) = (\<Sum>i<n. scalar_mult (sc_st st ! i) (pt_st st ! i))"
    using fs f_n s_n
  proof (rule sum_two_update)
    fix i assume "i < n" "i \<noteq> f" "i \<noteq> s"
    then show "scalar_mult (sc1 ! i) (pt1 ! i) = scalar_mult (sc_st st ! i) (pt_st st ! i)"
      by (simp add: sc1_def pt1_def)
  next
    have "sc1 ! s = m" "pt1 ! f = pt_st st ! f"
      "pt1 ! s = scalar_mult (a div m) (pt_st st ! f) + pt_st st ! s"
      using fs s_n n_pt by (simp_all add: sc1_def pt1_def m_def)
    then show "scalar_mult (sc1 ! f) (pt1 ! f) + scalar_mult (sc1 ! s) (pt1 ! s) =
          scalar_mult (sc_st st ! f) (pt_st st ! f) + scalar_mult (sc_st st ! s) (pt_st st ! s)"
      using reduce_identity[OF m_pos, of a "pt_st st ! f" "pt_st st ! s"] sc1_f
      by (simp add: a_def m_def)
  qed
  then have tot: "terms_sum n ?st' = terms_sum n st" by (simp add: terms_sum_def)
  have meas: "size_heap h' < size_heap h \<or> size_heap h' = size_heap h \<and> sc1 ! s < a"
  proof (cases "a mod m = 0")
    case True
    with rem pos_h show ?thesis by simp
  next
    case False
    then have "a \<noteq> m" by auto
    with m_le have "m < a" by simp
    with rep[OF False] sc1_other[of s] fs show ?thesis by (simp add: m_def)
  qed
  have c6: "secp256k1_replace h sc1 f = Inr (s, h') \<and>
            mset (s # heap_indices h') = mset (f # heap_indices h)" if "sc1 ! f \<noteq> 0"
    using that sc1_f rep ms' by simp
  show ?thesis
    using round inv' tot sub meas c6 sc1_other
    by (intro exI[of _ ?st']) (simp add: held_def defs[symmetric])
qed


lemma while_props:
  fixes st :: "'p::comm_monoid_add ecmult_multi_state"
  assumes "driver_inv n st"
  shows "\<exists>st'. secp256k1_ecmult_multi_while st = Some (Inr st') \<and> driver_inv n st' \<and>
           size_heap (heap_st st') = 0 \<and> terms_sum n st' = terms_sum n st"
proof -
  define r :: "('p ecmult_multi_state \<times> 'p ecmult_multi_state) set" where
    "r = inv_image (less_than <*lex*> less_than)
            (\<lambda>st. (size_heap (heap_st st), sc_st st ! first_st st))"
  have "wf r" unfolding r_def by (intro wf_inv_image wf_lex_prod wf_less_than)
  from this assms show ?thesis
  proof (induction st rule: wf_induct_rule)
  case (less st)
  show ?case
  proof (cases "0 < size_heap (heap_st st)")
    case False
    with less.prems show ?thesis
      by (subst secp256k1_ecmult_multi_while.simps) simp
  next
    case True
    from round_props[OF less.prems True] obtain st1 where
      round: "secp256k1_ecmult_multi_round st = Some (Inr st1)"
      and inv1: "driver_inv n st1" and tot1: "terms_sum n st1 = terms_sum n st"
      and meas: "size_heap (heap_st st1) < size_heap (heap_st st) \<or>
            size_heap (heap_st st1) = size_heap (heap_st st) \<and>
            sc_st st1 ! first_st st1 < sc_st st ! first_st st"
      by (elim exE conjE) (rule that; assumption)
    from meas have "(st1, st) \<in> r"
      by (auto simp: r_def)
    from less.IH[OF this inv1] obtain st' where
      "secp256k1_ecmult_multi_while st1 = Some (Inr st')" "driver_inv n st'"
      "size_heap (heap_st st') = 0" "terms_sum n st' = terms_sum n st1"
      by blast
    with True round tot1 show ?thesis
      by (subst secp256k1_ecmult_multi_while.simps) simp
  qed
  qed
qed

lemma terms_sum_single:
  fixes st :: "'p::comm_monoid_add ecmult_multi_state"
  assumes inv: "driver_inv n st" and empty: "size_heap (heap_st st) = 0"
  shows "terms_sum n st = scalar_mult (sc_st st ! first_st st) (pt_st st ! first_st st)"
proof -
  let ?f = "first_st st"
  let ?g = "\<lambda>i. scalar_mult (sc_st st ! i) (pt_st st ! i)"
  have held: "held st = [?f]" using empty by (simp add: held_def heap_indices_def)
  have f_n: "?f < n" using inv held unfolding driver_inv_def by simp
  have "\<forall>i\<in>{0..<n}. i \<notin> set (held st) \<longrightarrow> sc_st st ! i = 0 \<or> pt_st st ! i = 0"
    using inv unfolding driver_inv_def by blast
  then have zero: "?g i = 0" if "i \<in> {..<n} - {?f}" for i
    using that held by auto
  have "sum ?g {..<n} = ?g ?f + sum ?g ({..<n} - {?f})"
    using f_n by (intro sum.remove) simp_all
  also have "sum ?g ({..<n} - {?f}) = 0"
    using zero by (intro sum.neutral) blast
  finally show ?thesis by (simp add: terms_sum_def)
qed

lemma active_indices_set:
  "set (active_indices scalars pt n) = {i. i < n \<and> scalars ! i \<noteq> 0 \<and> pt ! i \<noteq> 0}"
  by (auto simp: active_indices_def secp256k1_scalar_is_zero_def secp256k1_gej_is_infinity_def)

lemma active_indices_distinct: "distinct (active_indices scalars pt n)"
  by (simp add: active_indices_def)

lemma inactive_sum:
  fixes pt :: "'p::comm_monoid_add list"
  assumes "active_indices sc pt n = []"
  shows "(\<Sum>i<n. scalar_mult (sc ! i) (pt ! i)) = 0"
proof (rule sum.neutral, rule ballI)
  fix i assume "i \<in> {..<n}"
  then have "i < n" by simp
  moreover have "set (active_indices sc pt n) = {}" using assms by simp
  ultimately have "sc ! i = 0 \<or> pt ! i = 0"
    unfolding active_indices_set by blast
  then show "scalar_mult (sc ! i) (pt ! i) = 0" by auto
qed

lemma ecmult_multi_main:
  fixes pt :: "'p::comm_monoid_add list"
  assumes h0: "length (tree h0) = SECP256K1_ECMULT_MULTI_MAX_N"
    and n_max: "n \<le> SECP256K1_ECMULT_MULTI_MAX_N"
    and n_sc: "n \<le> length sc" and n_pt: "n \<le> length pt"
  shows "\<exists>sc' pt'. secp256k1_ecmult_multi h0 sc pt n =
           Some (Inr (\<Sum>i<n. scalar_mult (sc ! i) (pt ! i), sc', pt'))"
proof -
  from heap_initialize_props[OF h0 n_max, of sc pt] obtain h where
    init: "secp256k1_heap_initialize h0 sc pt n = Inr h" and hinv: "heap_invariant h sc"
    and len: "size_heap h \<le> length (tree h)"
    and ms: "mset (heap_indices h) = mset (active_indices sc pt n)"
    by blast
  show ?thesis
  proof (cases "size_heap h = 0")
    case True
    then have "mset (active_indices sc pt n) = {#}" using ms by (simp add: heap_indices_def)
    then have "(\<Sum>i<n. scalar_mult (sc ! i) (pt ! i)) = 0" by (intro inactive_sum) simp
    with True init show ?thesis
      by (simp add: secp256k1_ecmult_multi_def secp256k1_gej_set_infinity_def)
  next
    case False
    then have pos: "0 < size_heap h" by simp
    from heap_remove_props[OF len pos hinv] obtain h1 where
      rem: "secp256k1_heap_remove h sc = Inr (tree h ! 0, h1)" and hinv1: "heap_invariant h1 sc"
      and len1: "length (tree h1) = length (tree h)" and size1: "size_heap h1 = size_heap h - 1"
      and ms1: "mset (heap_indices h1) = mset (heap_indices h) - {#tree h ! 0#}"
      by blast
    let ?r = "tree h ! 0"
    let ?st = "\<lparr>sc_st = sc, pt_st = pt, heap_st = h1, first_st = ?r\<rparr>"
    have r_in: "?r \<in> set (heap_indices h)" using pos len by (rule heap_indices_root)
    then have "?r \<in># mset (heap_indices h)" by simp
    then have msh: "mset (?r # heap_indices h1) = mset (active_indices sc pt n)"
      using ms1 by (simp add: ms[symmetric])
    then have seth: "set (?r # heap_indices h1) = set (active_indices sc pt n)"
      by (rule mset_eq_setD)
    have dist: "distinct (?r # heap_indices h1)"
      using msh active_indices_distinct[of sc pt n] by (metis mset_eq_imp_distinct_iff)
    have sub: "set (heap_indices h1) \<subseteq> set (heap_indices h)"
      using ms1 by (metis in_diffD set_mset_mset subsetI)
    have top: "sc ! i \<le> sc ! ?r" if "i \<in> set (heap_indices h1)" for i
      using that sub heap_root_max_index[OF hinv, of i] by blast
    have live: "i < n \<and> sc ! i \<noteq> 0" if "i \<in> set (?r # heap_indices h1)" for i
      using that unfolding seth active_indices_set by simp
    have dead: "sc ! i = 0 \<or> pt ! i = 0" if "i < n" "i \<notin> set (?r # heap_indices h1)" for i
      using that unfolding seth active_indices_set by blast
    have inv: "driver_inv n ?st"
      unfolding driver_inv_def held_def
      using n_sc n_pt len len1 size1 dist hinv1 top live dead
      by simp
    from while_props[OF inv] obtain st' where
      wh: "secp256k1_ecmult_multi_while ?st = Some (Inr st')" and inv': "driver_inv n st'"
      and empty: "size_heap (heap_st st') = 0" and tot: "terms_sum n st' = terms_sum n ?st"
      by blast
    let ?f = "first_st st'"
    have f: "?f < n" "sc_st st' ! ?f \<noteq> 0" "n \<le> length (sc_st st')" "n \<le> length (pt_st st')"
      using inv' unfolding driver_inv_def held_def by simp_all
    from ladder_loop[of st' "0::'p"] f obtain st'' where
      lad: "secp256k1_ecmult_multi_ladder 0 st' =
              Some (0 + scalar_mult (sc_st st' ! ?f) (pt_st st' ! ?f), st'')"
      by force
    have "scalar_mult (sc_st st' ! ?f) (pt_st st' ! ?f) = (\<Sum>i<n. scalar_mult (sc ! i) (pt ! i))"
      using terms_sum_single[OF inv' empty] tot by (simp add: terms_sum_def)
    with False init rem wh f lad show ?thesis
      by (simp add: secp256k1_ecmult_multi_def secp256k1_gej_set_infinity_def
            secp256k1_scalar_is_zero_def)
  qed
qed

lemma driver_start_props:
  fixes pt :: "'p::comm_monoid_add list"
  assumes inp: "driver_input h0 sc pt n"
  shows "(active_indices sc pt n = [] \<longrightarrow>
            driver_start h0 sc pt n = None \<and>
            secp256k1_ecmult_multi h0 sc pt n = Some (Inr (0, sc, pt))) \<and>
         (active_indices sc pt n \<noteq> [] \<longrightarrow>
            (\<exists>st. driver_start h0 sc pt n = Some st \<and> driver_inv n st \<and>
                  sc_st st = sc \<and> pt_st st = pt \<and>
                  set (held st) = set (active_indices sc pt n) \<and>
                  secp256k1_ecmult_multi h0 sc pt n =
                    (case secp256k1_ecmult_multi_while st of
                       None \<Rightarrow> None
                     | Some (Inl e) \<Rightarrow> Some (Inl e)
                     | Some (Inr st) \<Rightarrow>
                         if secp256k1_scalar_is_zero (sc_st st ! first_st st)
                         then Some (Inl Verify_Check_Failed)
                         else (case secp256k1_ecmult_multi_ladder 0 st of
                                 None \<Rightarrow> None
                               | Some (r, st) \<Rightarrow> Some (Inr (r, sc_st st, pt_st st))))))"
proof -
  have h0: "length (tree h0) = SECP256K1_ECMULT_MULTI_MAX_N"
    and n_max: "n \<le> SECP256K1_ECMULT_MULTI_MAX_N"
    and n_sc: "n \<le> length sc" and n_pt: "n \<le> length pt"
    using inp by (simp_all add: driver_input_def)
  from heap_initialize_props[OF h0 n_max, of sc pt] obtain h where
    init: "secp256k1_heap_initialize h0 sc pt n = Inr h" and hinv: "heap_invariant h sc"
    and len: "size_heap h \<le> length (tree h)"
    and ms: "mset (heap_indices h) = mset (active_indices sc pt n)"
    by blast
  have size0: "(size_heap h = 0) = (active_indices sc pt n = [])"
  proof -
    have "length (heap_indices h) = size_heap h" using len by (simp add: heap_indices_def)
    moreover have "length (heap_indices h) = length (active_indices sc pt n)"
      using ms by (rule mset_eq_length)
    ultimately show ?thesis by auto
  qed
  show ?thesis
  proof (cases "size_heap h = 0")
    case True
    with init size0 show ?thesis
      by (simp add: secp256k1_ecmult_multi_def secp256k1_gej_set_infinity_def driver_start_def)
  next
    case False
    then have pos: "0 < size_heap h" by simp
    from heap_remove_props[OF len pos hinv] obtain h1 where
      rem: "secp256k1_heap_remove h sc = Inr (tree h ! 0, h1)" and hinv1: "heap_invariant h1 sc"
      and len1: "length (tree h1) = length (tree h)" and size1: "size_heap h1 = size_heap h - 1"
      and ms1: "mset (heap_indices h1) = mset (heap_indices h) - {#tree h ! 0#}"
      by blast
    let ?r = "tree h ! 0"
    let ?st = "\<lparr>sc_st = sc, pt_st = pt, heap_st = h1, first_st = ?r\<rparr>"
    have r_in: "?r \<in> set (heap_indices h)" using pos len by (rule heap_indices_root)
    then have "?r \<in># mset (heap_indices h)" by simp
    then have msh: "mset (?r # heap_indices h1) = mset (active_indices sc pt n)"
      using ms1 by (simp add: ms[symmetric])
    then have seth: "set (?r # heap_indices h1) = set (active_indices sc pt n)"
      by (rule mset_eq_setD)
    have dist: "distinct (?r # heap_indices h1)"
      using msh active_indices_distinct[of sc pt n] by (metis mset_eq_imp_distinct_iff)
    have sub: "set (heap_indices h1) \<subseteq> set (heap_indices h)"
      using ms1 by (metis in_diffD set_mset_mset subsetI)
    have top: "sc ! i \<le> sc ! ?r" if "i \<in> set (heap_indices h1)" for i
      using that sub heap_root_max_index[OF hinv, of i] by blast
    have live: "i < n \<and> sc ! i \<noteq> 0" if "i \<in> set (?r # heap_indices h1)" for i
      using that unfolding seth active_indices_set by simp
    have dead: "sc ! i = 0 \<or> pt ! i = 0" if "i < n" "i \<notin> set (?r # heap_indices h1)" for i
      using that unfolding seth active_indices_set by blast
    have inv: "driver_inv n ?st"
      unfolding driver_inv_def held_def
      using n_sc n_pt len len1 size1 dist hinv1 top live dead
      by simp
    have start: "driver_start h0 sc pt n = Some ?st"
      using init rem False by (simp add: driver_start_def)
    have "secp256k1_ecmult_multi h0 sc pt n =
                    (case secp256k1_ecmult_multi_while ?st of
                       None \<Rightarrow> None
                     | Some (Inl e) \<Rightarrow> Some (Inl e)
                     | Some (Inr st) \<Rightarrow>
                         if secp256k1_scalar_is_zero (sc_st st ! first_st st)
                         then Some (Inl Verify_Check_Failed)
                         else (case secp256k1_ecmult_multi_ladder 0 st of
                                 None \<Rightarrow> None
                               | Some (r, st) \<Rightarrow> Some (Inr (r, sc_st st, pt_st st))))"
      using init rem False
      by (simp add: secp256k1_ecmult_multi_def secp256k1_gej_set_infinity_def)
    with start inv seth False size0 show ?thesis
      by (simp add: held_def)
  qed
qed

lemma driver_rounds_snoc:
  "driver_rounds (Suc k) st0 = Some st' \<longleftrightarrow>
   (\<exists>st. driver_rounds k st0 = Some st \<and> 0 < size_heap (heap_st st) \<and>
         secp256k1_ecmult_multi_round st = Some (Inr st'))"
proof (induction k arbitrary: st0)
  case 0
  show ?case by (auto split: option.splits sum.splits)
next
  case (Suc k)
  show ?case
  proof (cases "0 < size_heap (heap_st st0)")
    case False
    then show ?thesis by simp
  next
    case True
    show ?thesis
    proof (cases "secp256k1_ecmult_multi_round st0")
      case None
      with True show ?thesis by simp
    next
      case (Some res)
      show ?thesis
      proof (cases res)
        case (Inl e)
        with Some True show ?thesis by simp
      next
        case (Inr st1)
        have "driver_rounds (Suc (Suc k)) st0 = driver_rounds (Suc k) st1"
          using True Some Inr by simp
        moreover have "driver_rounds (Suc k) st0 = driver_rounds k st1"
          using True Some Inr by simp
        ultimately show ?thesis using Suc.IH[of st1] by simp
      qed
    qed
  qed
qed

lemma driver_rounds_inv:
  fixes st0 :: "'p::comm_monoid_add ecmult_multi_state"
  assumes "driver_inv n st0" and "driver_rounds k st0 = Some st"
  shows "driver_inv n st \<and> terms_sum n st = terms_sum n st0"
  using assms
proof (induction k arbitrary: st0)
  case 0
  then show ?case by simp
next
  case (Suc k)
  from Suc.prems(2) have pos: "0 < size_heap (heap_st st0)"
    by (simp split: if_splits)
  from round_props[OF Suc.prems(1) pos] obtain st1 where
    round: "secp256k1_ecmult_multi_round st0 = Some (Inr st1)"
    and inv1: "driver_inv n st1" and tot1: "terms_sum n st1 = terms_sum n st0"
    by (elim exE conjE) (rule that; assumption)
  from Suc.prems(2) pos round have "driver_rounds k st1 = Some st" by simp
  from Suc.IH[OF inv1 this] tot1 show ?case by simp
qed

lemma while_rounds:
  fixes st :: "'p::comm_monoid_add ecmult_multi_state"
  assumes "driver_inv n st"
  shows "\<exists>k st'. driver_rounds k st = Some st' \<and> size_heap (heap_st st') = 0 \<and>
           secp256k1_ecmult_multi_while st = Some (Inr st')"
proof -
  define r :: "('p ecmult_multi_state \<times> 'p ecmult_multi_state) set" where
    "r = inv_image (less_than <*lex*> less_than)
            (\<lambda>st. (size_heap (heap_st st), sc_st st ! first_st st))"
  have "wf r" unfolding r_def by (intro wf_inv_image wf_lex_prod wf_less_than)
  from this assms show ?thesis
  proof (induction st rule: wf_induct_rule)
    case (less st)
    show ?case
    proof (cases "0 < size_heap (heap_st st)")
      case False
      then have "driver_rounds 0 st = Some st \<and> size_heap (heap_st st) = 0 \<and>
           secp256k1_ecmult_multi_while st = Some (Inr st)"
        by (subst secp256k1_ecmult_multi_while.simps) simp
      then show ?thesis by blast
    next
      case True
      from round_props[OF less.prems True] obtain st1 where
        round: "secp256k1_ecmult_multi_round st = Some (Inr st1)"
        and inv1: "driver_inv n st1"
        and meas: "size_heap (heap_st st1) < size_heap (heap_st st) \<or>
              size_heap (heap_st st1) = size_heap (heap_st st) \<and>
              sc_st st1 ! first_st st1 < sc_st st ! first_st st"
        by (elim exE conjE) (rule that; assumption)
      from meas have "(st1, st) \<in> r" by (auto simp: r_def)
      from less.IH[OF this inv1] obtain k st' where
        k: "driver_rounds k st1 = Some st'" "size_heap (heap_st st') = 0"
          "secp256k1_ecmult_multi_while st1 = Some (Inr st')"
        by blast
      have "driver_rounds (Suc k) st = Some st'" using True round k(1) by simp
      moreover have "secp256k1_ecmult_multi_while st = Some (Inr st')"
        using True round k(3) by (subst secp256k1_ecmult_multi_while.simps) simp
      ultimately show ?thesis using k(2) by blast
    qed
  qed
qed

lemma driver_at_inv:
  fixes pt :: "'p::comm_monoid_add list"
  assumes "driver_input h0 sc pt n" and "driver_at k h0 sc pt n = Some st"
  shows "driver_inv n st"
proof -
  from assms(2) obtain st0 where start: "driver_start h0 sc pt n = Some st0"
    and rounds: "driver_rounds k st0 = Some st"
    by (auto simp: driver_at_def split: option.splits)
  from start driver_start_props[OF assms(1)] have "driver_inv n st0"
    by (cases "active_indices sc pt n = []") auto
  from driver_rounds_inv[OF this rounds] show ?thesis by simp
qed

lemma driver_at_Suc:
  "driver_at (Suc k) h0 sc pt n = Some st' \<longleftrightarrow>
   (\<exists>st. driver_at k h0 sc pt n = Some st \<and> 0 < size_heap (heap_st st) \<and>
         secp256k1_ecmult_multi_round st = Some (Inr st'))"
  unfolding driver_at_def
  by (cases "driver_start h0 sc pt n") (simp_all add: driver_rounds_snoc del: driver_rounds.simps)

lemma driver_input_std:
  "driver_input \<lparr>tree = replicate 256 0, size_heap = 0\<rparr> sc pt n = (n \<le> 256 \<and> n \<le> length sc \<and> n \<le> length pt)"
  by (simp add: driver_input_def SECP256K1_ECMULT_MULTI_MAX_N_def)

section \<open>Claims about the driver\<close>

text \<open>
  Claim C1. For every \<open>n\<close> up to \<^verbatim>\<open>SECP256K1_ECMULT_MULTI_MAX_N\<close> and all arrays of scalars and
  points with \<open>n\<close> slots, \<^verbatim>\<open>secp256k1_ecmult_multi\<close> returns, and its output point is the
  naive reference: the sum over \<open>i\<close> of \<open>scalars[i] \<cdot> points[i]\<close>, each product computed by
  its own double-and-add.
\<close>

theorem ecmult_multi_correct:
  "driver_input h0 sc pt n \<Longrightarrow>
   (\<exists>sc' pt'. secp256k1_ecmult_multi h0 sc pt n = Some (Inr (naive_reference sc pt n, sc', pt'))) \<and>
   naive_reference sc pt n = (\<Sum>i<n. scalar_mult (sc ! i) (pt ! i))"
  using ecmult_multi_main[of h0 n sc pt]
  by (simp add: driver_input_def naive_reference_eq)

text \<open>Claim C1 on the scalars 7, 5, 0, 3 and the integers 1, 10, 100, 1000 as points.\<close>

theorem ecmult_multi_correct_witness:
  "driver_input \<lparr>tree = replicate 256 0, size_heap = 0\<rparr> [7, 5, 0, 3] [1, 10, 100, 1000::int] 4 \<and>
   (\<exists>sc' pt'. secp256k1_ecmult_multi \<lparr>tree = replicate 256 0, size_heap = 0\<rparr>
                 [7, 5, 0, 3] [1, 10, 100, 1000::int] 4 = Some (Inr (3057, sc', pt')))"
proof -
  have inp: "driver_input \<lparr>tree = replicate 256 0, size_heap = 0\<rparr> [7, 5, 0, 3] [1, 10, 100, 1000::int] 4"
    by (simp add: driver_input_std)
  have ref: "naive_reference [7, 5, 0, 3] [1, 10, 100, 1000::int] 4 = 3057"
    by code_simp
  from ecmult_multi_correct[OF inp] inp ref show ?thesis by simp
qed

text \<open>
  Claim C3. At the head of every round of the reduction loop the scalar of \<open>first\<close> is not
  smaller than the scalar of the root \<open>second\<close>, so the first subtraction of the
  \<^verbatim>\<open>do ... while\<close> body, which runs before any guard is read, does not borrow; the whole
  \<^verbatim>\<open>do ... while\<close> loop ends without the error that the model raises at a subtraction whose
  minuend is smaller than its subtrahend, and so does the whole run.
\<close>

theorem numsub_never_borrows:
  "driver_input h0 sc pt n \<Longrightarrow> driver_at k h0 sc pt n = Some st \<Longrightarrow>
   0 < size_heap (heap_st st) \<Longrightarrow>
   sc_st st ! (tree (heap_st st) ! 0) \<le> sc_st st ! first_st st \<and>
   (\<exists>st'. secp256k1_ecmult_multi_do st (tree (heap_st st) ! 0) = Some (Inr st')) \<and>
   (\<exists>res. secp256k1_ecmult_multi h0 sc pt n = Some (Inr res))"
proof -
  assume inp: "driver_input h0 sc pt n" and at: "driver_at k h0 sc pt n = Some st"
    and pos: "0 < size_heap (heap_st st)"
  have inv: "driver_inv n st" using inp at by (rule driver_at_inv)
  from round_result[OF inv pos refl refl refl refl refl refl refl]
  have "sc_st st ! (tree (heap_st st) ! 0) \<le> sc_st st ! first_st st"
    and "\<exists>st'. secp256k1_ecmult_multi_do st (tree (heap_st st) ! 0) = Some (Inr st')"
    by blast+
  moreover have "\<exists>res. secp256k1_ecmult_multi h0 sc pt n = Some (Inr res)"
    using ecmult_multi_main[of h0 n sc pt] inp by (auto simp: driver_input_def)
  ultimately show ?thesis by blast
qed

text \<open>Claim C3 one round into the run on the scalars 7 and 5.\<close>

theorem numsub_never_borrows_witness:
  "driver_input \<lparr>tree = replicate 256 0, size_heap = 0\<rparr> [7, 5] [1, 10::int] 2 \<and>
   (\<exists>st. driver_at 1 \<lparr>tree = replicate 256 0, size_heap = 0\<rparr> [7, 5] [1, 10::int] 2 = Some st \<and>
         0 < size_heap (heap_st st) \<and>
         sc_st st ! (tree (heap_st st) ! 0) \<le> sc_st st ! first_st st \<and>
         (\<exists>st'. secp256k1_ecmult_multi_do st (tree (heap_st st) ! 0) = Some (Inr st')))"
proof -
  let ?h0 = "\<lparr>tree = replicate 256 0, size_heap = 0\<rparr>"
  have inp: "driver_input ?h0 [7, 5] [1, 10::int] 2"
    by (simp add: driver_input_std)
  have "case driver_at 1 ?h0 [7, 5] [1, 10::int] 2 of
          Some st \<Rightarrow> 0 < size_heap (heap_st st) | None \<Rightarrow> False"
    by code_simp
  then obtain st where at: "driver_at 1 ?h0 [7, 5] [1, 10::int] 2 = Some st"
    and pos: "0 < size_heap (heap_st st)"
    by (auto split: option.splits)
  from numsub_never_borrows[OF inp at pos] inp at pos show ?thesis by blast
qed

text \<open>
  Claim C4. For every input within the size bound \<^verbatim>\<open>secp256k1_ecmult_multi\<close> returns: when
  there is an active term, the reduction loop leaves an empty heap after finitely many rounds,
  and the ladder started there returns, with the remaining scalar consumed down to zero.
\<close>

theorem ecmult_multi_terminates:
  "driver_input h0 sc pt n \<Longrightarrow>
   (\<exists>res. secp256k1_ecmult_multi h0 sc pt n = Some res) \<and>
   (active_indices sc pt n \<noteq> [] \<longrightarrow>
      (\<exists>k st r st'. driver_at k h0 sc pt n = Some st \<and> size_heap (heap_st st) = 0 \<and>
          sc_st st ! first_st st \<noteq> 0 \<and>
          secp256k1_ecmult_multi_ladder secp256k1_gej_set_infinity st = Some (r, st') \<and>
          sc_st st' ! first_st st' = 0))"
proof -
  assume inp: "driver_input h0 sc pt n"
  have ret: "\<exists>res. secp256k1_ecmult_multi h0 sc pt n = Some res"
    using ecmult_multi_main[of h0 n sc pt] inp by (auto simp: driver_input_def)
  have loops: "\<exists>k st r st'. driver_at k h0 sc pt n = Some st \<and> size_heap (heap_st st) = 0 \<and>
          sc_st st ! first_st st \<noteq> 0 \<and>
          secp256k1_ecmult_multi_ladder secp256k1_gej_set_infinity st = Some (r, st') \<and>
          sc_st st' ! first_st st' = 0"
    if act: "active_indices sc pt n \<noteq> []"
  proof -
    from driver_start_props[OF inp] act obtain st0 where
      start: "driver_start h0 sc pt n = Some st0" and inv0: "driver_inv n st0"
      by blast
    from while_rounds[OF inv0] obtain k st where
      rounds: "driver_rounds k st0 = Some st" and empty: "size_heap (heap_st st) = 0"
      by blast
    have at: "driver_at k h0 sc pt n = Some st"
      using start rounds by (simp add: driver_at_def)
    have inv: "driver_inv n st" using driver_rounds_inv[OF inv0 rounds] by simp
    then have f: "first_st st < length (sc_st st)" "first_st st < length (pt_st st)"
      "0 < sc_st st ! first_st st"
      unfolding driver_inv_def held_def by auto
    from ladder_loop[OF f, of secp256k1_gej_set_infinity] obtain r st' where
      "secp256k1_ecmult_multi_ladder secp256k1_gej_set_infinity st = Some (r, st')"
      "sc_st st' ! first_st st' = 0"
      by blast
    with at empty f(3) show ?thesis by blast
  qed
  from ret loops show ?thesis by blast
qed

text \<open>Claim C4 on the scalars 7, 5, 0, 3, three of whose terms are active.\<close>

theorem ecmult_multi_terminates_witness:
  "driver_input \<lparr>tree = replicate 256 0, size_heap = 0\<rparr> [7, 5, 0, 3] [1, 10, 100, 1000::int] 4 \<and>
   active_indices [7, 5, 0, 3] [1, 10, 100, 1000::int] 4 = [0, 1, 3] \<and>
   (\<exists>res. secp256k1_ecmult_multi \<lparr>tree = replicate 256 0, size_heap = 0\<rparr>
             [7, 5, 0, 3] [1, 10, 100, 1000::int] 4 = Some res) \<and>
   (\<exists>k st r st'. driver_at k \<lparr>tree = replicate 256 0, size_heap = 0\<rparr>
                    [7, 5, 0, 3] [1, 10, 100, 1000::int] 4 = Some st \<and>
        size_heap (heap_st st) = 0 \<and>
        secp256k1_ecmult_multi_ladder secp256k1_gej_set_infinity st = Some (r, st'))"
proof -
  let ?h0 = "\<lparr>tree = replicate 256 0, size_heap = 0\<rparr>"
  have inp: "driver_input ?h0 [7, 5, 0, 3] [1, 10, 100, 1000::int] 4"
    by (simp add: driver_input_std)
  have act: "active_indices [7, 5, 0, 3] [1, 10, 100, 1000::int] 4 = [0, 1, 3]"
    by code_simp
  from ecmult_multi_terminates[OF inp] inp act show ?thesis by simp blast
qed

text \<open>
  Claim C9. When no term is active (every scalar is zero or its point is the point at
  infinity; in particular \<open>n = 0\<close>, all scalars zero, or all points at infinity),
  \<^verbatim>\<open>secp256k1_ecmult_multi\<close> returns the point at infinity and leaves both arrays as they
  were.
\<close>

theorem ecmult_multi_no_active_term:
  "driver_input h0 sc pt n \<Longrightarrow> \<forall>i<n. sc ! i = 0 \<or> pt ! i = 0 \<Longrightarrow>
   secp256k1_ecmult_multi h0 sc pt n = Some (Inr (secp256k1_gej_set_infinity, sc, pt))"
proof -
  assume inp: "driver_input h0 sc pt n" and none: "\<forall>i<n. sc ! i = 0 \<or> pt ! i = 0"
  have "active_indices sc pt n = []"
    unfolding active_indices_def using none
    by (auto simp: filter_empty_conv secp256k1_scalar_is_zero_def secp256k1_gej_is_infinity_def)
  with driver_start_props[OF inp] show ?thesis
    by (simp add: secp256k1_gej_set_infinity_def)
qed

text \<open>Claim C9 for no term at all, for two zero scalars, and for two points at infinity.\<close>

theorem ecmult_multi_no_active_term_witness:
  "driver_input \<lparr>tree = replicate 256 0, size_heap = 0\<rparr> [] ([]::int list) 0 \<and>
   secp256k1_ecmult_multi \<lparr>tree = replicate 256 0, size_heap = 0\<rparr> [] ([]::int list) 0 =
     Some (Inr (0, [], [])) \<and>
   driver_input \<lparr>tree = replicate 256 0, size_heap = 0\<rparr> [0, 0] [5, 7::int] 2 \<and>
   secp256k1_ecmult_multi \<lparr>tree = replicate 256 0, size_heap = 0\<rparr> [0, 0] [5, 7::int] 2 =
     Some (Inr (0, [0, 0], [5, 7])) \<and>
   driver_input \<lparr>tree = replicate 256 0, size_heap = 0\<rparr> [3, 4] [0, 0::int] 2 \<and>
   secp256k1_ecmult_multi \<lparr>tree = replicate 256 0, size_heap = 0\<rparr> [3, 4] [0, 0::int] 2 =
     Some (Inr (0, [3, 4], [0, 0]))"
proof -
  let ?h0 = "\<lparr>tree = replicate 256 0, size_heap = 0\<rparr>"
  have a: "driver_input ?h0 [] ([]::int list) 0" by (simp add: driver_input_std)
  have b: "driver_input ?h0 [0, 0] [5, 7::int] 2" by (simp add: driver_input_std)
  have c: "driver_input ?h0 [3, 4] [0, 0::int] 2" by (simp add: driver_input_std)
  have a': "\<forall>i<0. [] ! i = (0::nat) \<or> [] ! i = (0::int)" by simp
  have b': "\<forall>i<2. [0, 0] ! i = (0::nat) \<or> [5, 7] ! i = (0::int)"
    by (simp add: less_2_cases_iff)
  have c': "\<forall>i<2. [3, 4] ! i = (0::nat) \<or> [0, 0] ! i = (0::int)"
    by (simp add: less_2_cases_iff)
  from ecmult_multi_no_active_term[OF a a'] ecmult_multi_no_active_term[OF b b']
    ecmult_multi_no_active_term[OF c c'] a b c
  show ?thesis by (simp add: secp256k1_gej_set_infinity_def)
qed

text \<open>
  Claim C10. At the head of every round of the driver's loop, \<open>first\<close> and the indices in
  \<open>heap.tree[0..size)\<close> are pairwise distinct and below \<open>n\<close>; the scalars of the indices in
  the heap are non-zero; \<open>first\<close> differs from the root \<open>second\<close>, so the addition into
  \<open>pt[second]\<close> and the subtraction from \<open>sc[first]\<close> work on two distinct slots; and the
  round leaves the scalar of every index that was in the heap as it was.
\<close>

theorem driver_indices_distinct:
  "driver_input h0 sc pt n \<Longrightarrow> driver_at k h0 sc pt n = Some st \<Longrightarrow>
   distinct (held st) \<and> (\<forall>i\<in>set (held st). i < n) \<and>
   (\<forall>i\<in>set (heap_indices (heap_st st)). sc_st st ! i \<noteq> 0) \<and>
   (0 < size_heap (heap_st st) \<longrightarrow> first_st st \<noteq> tree (heap_st st) ! 0) \<and>
   (\<forall>st'. driver_at (Suc k) h0 sc pt n = Some st' \<longrightarrow>
      (\<forall>i\<in>set (heap_indices (heap_st st)). sc_st st' ! i = sc_st st ! i))"
proof -
  assume inp: "driver_input h0 sc pt n" and at: "driver_at k h0 sc pt n = Some st"
  have inv: "driver_inv n st" using inp at by (rule driver_at_inv)
  then have dist: "distinct (held st)" and below: "\<forall>i\<in>set (held st). i < n"
    and nz: "\<forall>i\<in>set (heap_indices (heap_st st)). sc_st st ! i \<noteq> 0"
    unfolding driver_inv_def held_def by auto
  have root: "first_st st \<noteq> tree (heap_st st) ! 0" if "0 < size_heap (heap_st st)"
    using round_result[OF inv that refl refl refl refl refl refl refl] by blast
  have keep: "\<forall>i\<in>set (heap_indices (heap_st st)). sc_st st' ! i = sc_st st ! i"
    if next_at: "driver_at (Suc k) h0 sc pt n = Some st'" for st'
  proof -
    from next_at at have pos: "0 < size_heap (heap_st st)"
      and round: "secp256k1_ecmult_multi_round st = Some (Inr st')"
      unfolding driver_at_Suc by auto
    from round_props[OF inv pos] round
    have same: "\<forall>i. i \<noteq> first_st st \<longrightarrow> sc_st st' ! i = sc_st st ! i" by auto
    have "i \<noteq> first_st st" if "i \<in> set (heap_indices (heap_st st))" for i
      using that dist by (auto simp: held_def)
    with same show ?thesis by blast
  qed
  from dist below nz root keep show ?thesis by blast
qed

text \<open>Claim C10 at the second round of the run on the scalars 7, 5, 0, 3.\<close>

theorem driver_indices_distinct_witness:
  "driver_input \<lparr>tree = replicate 256 0, size_heap = 0\<rparr> [7, 5, 0, 3] [1, 10, 100, 1000::int] 4 \<and>
   (\<exists>st st'. driver_at 1 \<lparr>tree = replicate 256 0, size_heap = 0\<rparr>
                [7, 5, 0, 3] [1, 10, 100, 1000::int] 4 = Some st \<and>
        driver_at (Suc 1) \<lparr>tree = replicate 256 0, size_heap = 0\<rparr>
                [7, 5, 0, 3] [1, 10, 100, 1000::int] 4 = Some st' \<and>
        0 < size_heap (heap_st st) \<and>
        distinct (held st) \<and> first_st st \<noteq> tree (heap_st st) ! 0 \<and>
        list_all (\<lambda>i. i < 4 \<and> sc_st st' ! i = sc_st st ! i \<and> sc_st st ! i \<noteq> 0)
          (heap_indices (heap_st st)))"
proof -
  let ?h0 = "\<lparr>tree = replicate 256 0, size_heap = 0\<rparr>"
  have inp: "driver_input ?h0 [7, 5, 0, 3] [1, 10, 100, 1000::int] 4"
    by (simp add: driver_input_std)
  have "case driver_at 1 ?h0 [7, 5, 0, 3] [1, 10, 100, 1000::int] 4 of
          Some st \<Rightarrow> 0 < size_heap (heap_st st) | None \<Rightarrow> False"
    by code_simp
  then obtain st where at: "driver_at 1 ?h0 [7, 5, 0, 3] [1, 10, 100, 1000::int] 4 = Some st"
    and pos: "0 < size_heap (heap_st st)"
    by (auto split: option.splits)
  have "case driver_at (Suc 1) ?h0 [7, 5, 0, 3] [1, 10, 100, 1000::int] 4 of
          Some st \<Rightarrow> True | None \<Rightarrow> False"
    by code_simp
  then obtain st' where at': "driver_at (Suc 1) ?h0 [7, 5, 0, 3] [1, 10, 100, 1000::int] 4 = Some st'"
    by (auto split: option.splits)
  from driver_indices_distinct[OF inp at] at' pos
  have "distinct (held st) \<and> first_st st \<noteq> tree (heap_st st) ! 0 \<and>
        list_all (\<lambda>i. i < 4 \<and> sc_st st' ! i = sc_st st ! i \<and> sc_st st ! i \<noteq> 0)
          (heap_indices (heap_st st))"
    by (simp add: list_all_iff held_def)
  with inp at at' pos show ?thesis by blast
qed

text \<open>
  Claim C6, as amended. In a round of the reduction loop whose inner reduction leaves the
  scalar of \<open>first\<close> non-zero, the driver calls \<^verbatim>\<open>secp256k1_replace\<close> with \<open>first\<close>; the
  index returned is \<open>second\<close>, the old root, and it becomes the new \<open>first\<close>. The indices
  held (the one in hand and those in the heap) are the same as before the round and pairwise
  distinct, so exactly one index is held outside the heap, and every active index is held.
\<close>

theorem replace_root_keeps_one_in_hand:
  "driver_input h0 sc pt n \<Longrightarrow> driver_at k h0 sc pt n = Some st \<Longrightarrow>
   0 < size_heap (heap_st st) \<Longrightarrow>
   \<exists>st1. secp256k1_ecmult_multi_do st (tree (heap_st st) ! 0) = Some (Inr st1) \<and>
     first_st st1 = first_st st \<and> heap_st st1 = heap_st st \<and>
     (\<not> secp256k1_scalar_is_zero (sc_st st1 ! first_st st1) \<longrightarrow>
        (\<exists>h' st'. secp256k1_replace (heap_st st1) (sc_st st1) (first_st st1) =
                    Inr (tree (heap_st st) ! 0, h') \<and>
                  st' = st1\<lparr>heap_st := h', first_st := tree (heap_st st) ! 0\<rparr> \<and>
                  driver_at (Suc k) h0 sc pt n = Some st' \<and>
                  mset (held st') = mset (held st) \<and> distinct (held st') \<and>
                  (\<forall>i<n. sc_st st' ! i \<noteq> 0 \<and> pt_st st' ! i \<noteq> 0 \<longrightarrow> i \<in> set (held st'))))"
proof -
  assume inp: "driver_input h0 sc pt n" and at: "driver_at k h0 sc pt n = Some st"
    and pos: "0 < size_heap (heap_st st)"
  have inv: "driver_inv n st" using inp at by (rule driver_at_inv)
  let ?s = "tree (heap_st st) ! 0"
  from round_result[OF inv pos refl refl refl refl refl refl refl]
  obtain st1 where do_eq: "secp256k1_ecmult_multi_do st ?s = Some (Inr st1)"
    and f1: "first_st st1 = first_st st" and h1: "heap_st st1 = heap_st st"
    by (elim conjE exE) simp
  have rep: "\<exists>h' st'. secp256k1_replace (heap_st st1) (sc_st st1) (first_st st1) = Inr (?s, h') \<and>
                  st' = st1\<lparr>heap_st := h', first_st := ?s\<rparr> \<and>
                  driver_at (Suc k) h0 sc pt n = Some st' \<and>
                  mset (held st') = mset (held st) \<and> distinct (held st') \<and>
                  (\<forall>i<n. sc_st st' ! i \<noteq> 0 \<and> pt_st st' ! i \<noteq> 0 \<longrightarrow> i \<in> set (held st'))"
    if nz: "\<not> secp256k1_scalar_is_zero (sc_st st1 ! first_st st1)"
  proof -
    from round_props[OF inv pos] obtain st' where
      round: "secp256k1_ecmult_multi_round st = Some (Inr st')"
      and inv': "driver_inv n st'" and first': "first_st st' = ?s"
      and c6: "sc_st st' ! first_st st \<noteq> 0 \<longrightarrow>
              secp256k1_replace (heap_st st) (sc_st st') (first_st st) =
                Inr (first_st st', heap_st st') \<and>
              mset (held st') = mset (held st)"
      by (elim exE conjE) (rule that; assumption)
    have unfold: "secp256k1_ecmult_multi_round st =
        (case secp256k1_replace (heap_st st1) (sc_st st1) (first_st st1) of
           Inl e \<Rightarrow> Some (Inl e)
         | Inr (result, h) \<Rightarrow> Some (Inr (st1\<lparr>heap_st := h, first_st := result\<rparr>)))"
      using do_eq nz by (simp add: secp256k1_ecmult_multi_round_def)
    from round unfold obtain result h' where
      r: "secp256k1_replace (heap_st st1) (sc_st st1) (first_st st1) = Inr (result, h')"
      and st': "st' = st1\<lparr>heap_st := h', first_st := result\<rparr>"
      by (auto split: sum.splits)
    from st' first' have res: "result = ?s" by simp
    from st' have sc': "sc_st st' = sc_st st1" by simp
    from nz have "sc_st st' ! first_st st \<noteq> 0"
      by (simp add: sc' f1 secp256k1_scalar_is_zero_def)
    with c6 have ms: "mset (held st') = mset (held st)" by blast
    have at': "driver_at (Suc k) h0 sc pt n = Some st'"
      unfolding driver_at_Suc using at pos round by blast
    have dist': "distinct (held st')" using inv' unfolding driver_inv_def by blast
    have "\<forall>i\<in>{0..<n}. i \<notin> set (held st') \<longrightarrow> sc_st st' ! i = 0 \<or> pt_st st' ! i = 0"
      using inv' unfolding driver_inv_def by blast
    then have all: "\<forall>i<n. sc_st st' ! i \<noteq> 0 \<and> pt_st st' ! i \<noteq> 0 \<longrightarrow> i \<in> set (held st')"
      by auto
    from r res st' at' ms dist' all show ?thesis by blast
  qed
  from do_eq f1 h1 rep show ?thesis by blast
qed

text \<open>Claim C6 at the first round of the run on the scalars 7 and 5.\<close>

theorem replace_root_keeps_one_in_hand_witness:
  "driver_input \<lparr>tree = replicate 256 0, size_heap = 0\<rparr> [7, 5] [1, 10::int] 2 \<and>
   (\<exists>st st1 h'. driver_at 0 \<lparr>tree = replicate 256 0, size_heap = 0\<rparr> [7, 5] [1, 10::int] 2 = Some st \<and>
        0 < size_heap (heap_st st) \<and>
        secp256k1_ecmult_multi_do st (tree (heap_st st) ! 0) = Some (Inr st1) \<and>
        \<not> secp256k1_scalar_is_zero (sc_st st1 ! first_st st1) \<and>
        secp256k1_replace (heap_st st1) (sc_st st1) (first_st st1) = Inr (tree (heap_st st) ! 0, h') \<and>
        driver_at (Suc 0) \<lparr>tree = replicate 256 0, size_heap = 0\<rparr> [7, 5] [1, 10::int] 2 =
          Some (st1\<lparr>heap_st := h', first_st := tree (heap_st st) ! 0\<rparr>))"
proof -
  let ?h0 = "\<lparr>tree = replicate 256 0, size_heap = 0\<rparr>"
  have inp: "driver_input ?h0 [7, 5] [1, 10::int] 2"
    by (simp add: driver_input_std)
  have "case driver_at 0 ?h0 [7, 5] [1, 10::int] 2 of
          Some st \<Rightarrow> 0 < size_heap (heap_st st) \<and>
            (case secp256k1_ecmult_multi_do st (tree (heap_st st) ! 0) of
               Some (Inr st1) \<Rightarrow> \<not> secp256k1_scalar_is_zero (sc_st st1 ! first_st st1)
             | _ \<Rightarrow> False)
        | None \<Rightarrow> False"
    by code_simp
  then obtain st st1 where at: "driver_at 0 ?h0 [7, 5] [1, 10::int] 2 = Some st"
    and pos: "0 < size_heap (heap_st st)"
    and do_eq: "secp256k1_ecmult_multi_do st (tree (heap_st st) ! 0) = Some (Inr st1)"
    and nz: "\<not> secp256k1_scalar_is_zero (sc_st st1 ! first_st st1)"
    by (auto split: option.splits sum.splits)
  from replace_root_keeps_one_in_hand[OF inp at pos] do_eq nz
  obtain h' where
    "secp256k1_replace (heap_st st1) (sc_st st1) (first_st st1) = Inr (tree (heap_st st) ! 0, h')"
    "driver_at (Suc 0) ?h0 [7, 5] [1, 10::int] 2 =
          Some (st1\<lparr>heap_st := h', first_st := tree (heap_st st) ! 0\<rparr>)"
    by auto
  with inp at pos do_eq nz show ?thesis by blast
qed

text \<open>
  Claim C6 as stated has the returned index discarded. In the round that starts with the
  scalars 7 and 5, index 0 in hand and index 1 in the heap, \<^verbatim>\<open>secp256k1_replace\<close> returns
  index 1, and the round ends with index 1 as \<open>first\<close>: the returned index is kept in hand.
\<close>

theorem replace_root_result_counterexample:
  "secp256k1_replace \<lparr>tree = [1], size_heap = 1\<rparr> [2, 5] 0 =
     Inr (1, \<lparr>tree = [0], size_heap = 1\<rparr>) \<and>
   secp256k1_ecmult_multi_round
     \<lparr>sc_st = [7, 5], pt_st = [1, 10::int], heap_st = \<lparr>tree = [1], size_heap = 1\<rparr>, first_st = 0\<rparr> =
     Some (Inr \<lparr>sc_st = [2, 5], pt_st = [1, 11], heap_st = \<lparr>tree = [0], size_heap = 1\<rparr>,
                first_st = 1\<rparr>)"
  by code_simp

end
